theory Spec2Isabelle
  imports Complex_Main "HOL-Library.Multiset"
begin

section \<open>Connection lifecycle engine of main.js\<close>

text \<open>
  A shallow embedding of \<^verbatim>\<open>src/main.js\<close>: the hub builder (\<^verbatim>\<open>createConnections\<close>),
  the lifecycle tick (\<^verbatim>\<open>updateConnections\<close>), the population balancer inside
  \<^verbatim>\<open>render\<close>, and \<^verbatim>\<open>resize\<close>.

  Conventions of the model.
  \<^item> JavaScript numbers are modelled as \<open>real\<close> (counts as \<open>int\<close> or \<open>nat\<close>): rounding of
    doubles and of \<^verbatim>\<open>Float32Array\<close> stores is not modelled. Only \<^verbatim>\<open>resize\<close>, where a
    division by zero is at stake, uses a number type with the non-finite values.
  \<^item> \<^verbatim>\<open>Math.random()\<close> is an injected stream \<open>rs :: nat \<Rightarrow> real\<close>; the state counts the
    draws made so far (\<open>randomPos\<close>), so the k-th call returns \<open>rs k\<close>.
  \<^item> \<^verbatim>\<open>performance.now() * 0.001\<close> is an input: \<open>tNow\<close> for the read at the top of
    \<^verbatim>\<open>render\<close>, \<open>tCreate\<close> for the read inside \<^verbatim>\<open>createConnections\<close>.
  \<^item> A batch object and its \<^verbatim>\<open>LineSegments\<close> object are identified by \<open>cid\<close>, allocated
    from the counter \<open>nextId\<close>; the scene is the list of the ids of the attached line objects.
\<close>

subsection \<open>Constants\<close>

definition SMALL_BATCH_INTERVAL :: real where "SMALL_BATCH_INTERVAL = 1"
definition CONNECTION_REFRESH_RATE :: real where "CONNECTION_REFRESH_RATE = 5 / 100"
definition INITIAL_CONNECTIONS :: int where "INITIAL_CONNECTIONS = 300"
definition MAX_TOTAL_CONNECTIONS :: int where "MAX_TOTAL_CONNECTIONS = 600"
definition TARGET_CONNECTIONS :: int where "TARGET_CONNECTIONS = 400"
definition FADE_IN_DURATION :: real where "FADE_IN_DURATION = 75 / 100"
definition FADE_OUT_DURATION :: real where "FADE_OUT_DURATION = 15 / 10"
definition NUM_POINTS :: int where "NUM_POINTS = 50000"
definition NUM_CONNECTED_POINTS :: int where "NUM_CONNECTED_POINTS = 500"
definition CONNECTION_THRESHOLD :: real where "CONNECTION_THRESHOLD = 2"

subsection \<open>Data model\<close>

datatype conn_state = Active | FadingIn | FadingOut

text \<open>
  One batch (\<^verbatim>\<open>newConnections\<close>): \<open>colors\<close> is \<^verbatim>\<open>lines.geometry.attributes.color.array\<close>,
  \<open>linePositions\<close> the position attribute, \<open>visible\<close> is \<^verbatim>\<open>lines.visible\<close>.
\<close>

record conn =
  cid :: nat
  linePositions :: "real list"
  colors :: "real list"
  visible :: bool
  opacities :: "real list"
  state :: conn_state
  startTime :: real
  hubsCount :: nat

record stats =
  stat_active :: int
  stat_fadingIn :: int
  stat_fadingOut :: int
  stat_total :: int

text \<open>
  The globals: \<open>connections\<close> (null or a batch, kept by identity), the four buckets of
  \<^verbatim>\<open>connectionStates\<close>, \<^verbatim>\<open>connectionStats\<close>, the scene's line objects, the balancer's
  watermark and the setup flag.
\<close>

record sys =
  connections :: "nat option"
  active :: "conn list"
  fadingIn :: "conn list"
  fadingOut :: "conn list"
  pendingRemoval :: "conn list"
  scene :: "nat list"
  connectionStats :: stats
  nextConnectionUpdateTime :: real
  initialSetupDone :: bool
  randomPos :: nat
  nextId :: nat

record config =
  useLineGradient :: bool
  lineColorFlat :: nat

definition CONFIG :: config where
  "CONFIG = \<lparr> useLineGradient = False, lineColorFlat = 0 \<rparr>"

text \<open>
  \<^verbatim>\<open>hexToRgbNorm\<close> on a number (the only way the file calls it): the three bytes of the
  value, each divided by 255.
\<close>

definition hexToRgbNorm :: "nat \<Rightarrow> real \<times> real \<times> real" where
  "hexToRgbNorm num =
     (real ((num div 65536) mod 256) / 255,
      real ((num div 256) mod 256) / 255,
      real (num mod 256) / 255)"

subsection \<open>The neighbour sampler and the hub builder\<close>

record neighbor =
  nb_index :: int
  nb_dist :: real
  nb_position :: "real \<times> real \<times> real"

text \<open>
  Reading point \<open>i\<close> of the flat position array. An index outside the array reads
  \<^verbatim>\<open>undefined\<close>, every distance computed from it is \<^verbatim>\<open>NaN\<close> and no comparison with it
  holds: that is the value \<open>None\<close>.
\<close>

definition point :: "real list \<Rightarrow> int \<Rightarrow> (real \<times> real \<times> real) option" where
  "point positions i =
     (if 0 \<le> i \<and> nat i * 3 + 2 < length positions
      then Some (positions ! (nat i * 3), positions ! (nat i * 3 + 1), positions ! (nat i * 3 + 2))
      else None)"

definition randomIndex :: "real \<Rightarrow> int" where
  "randomIndex r = \<lfloor>r * real_of_int NUM_POINTS\<rfloor>"

definition distance :: "real \<times> real \<times> real \<Rightarrow> real \<times> real \<times> real \<Rightarrow> real" where
  "distance q h =
     (case (q, h) of ((x, y, z), (hubX, hubY, hubZ)) \<Rightarrow>
        sqrt ((x - hubX) ^ 2 + (y - hubY) ^ 2 + (z - hubZ) ^ 2))"

text \<open>
  The probe loop \<^verbatim>\<open>for (let j = 0; j < 50; j++)\<close>: the first argument counts the
  iterations left, \<open>p\<close> is the position in the random stream, \<open>acc\<close> is
  \<^verbatim>\<open>potentialNeighbors\<close>.
\<close>

fun probeLoop ::
  "(nat \<Rightarrow> real) \<Rightarrow> real list \<Rightarrow> int \<Rightarrow> nat \<Rightarrow> nat \<Rightarrow> neighbor list \<Rightarrow> neighbor list" where
  "probeLoop rs positions hubIndex 0 p acc = acc"
| "probeLoop rs positions hubIndex (Suc n) p acc =
     (let otherIndex = randomIndex (rs p) in
      if otherIndex = hubIndex then probeLoop rs positions hubIndex n (Suc p) acc
      else
        (case (point positions otherIndex, point positions hubIndex) of
           (Some q, Some h) \<Rightarrow>
             (let dist = distance q h in
              if dist < CONNECTION_THRESHOLD
              then probeLoop rs positions hubIndex n (Suc p)
                     (acc @ [\<lparr> nb_index = otherIndex, nb_dist = dist, nb_position = q \<rparr>])
              else probeLoop rs positions hubIndex n (Suc p) acc)
         | _ \<Rightarrow> probeLoop rs positions hubIndex n (Suc p) acc))"

text \<open>The colours of one hub: six values per spoke, hub end then spoke end.\<close>

definition hubColors :: "real \<times> real \<times> real \<Rightarrow> real list" where
  "hubColors hub =
     (if useLineGradient CONFIG then
        (case hub of (hubX, hubY, hubZ) \<Rightarrow>
           (let hubDist = sqrt (hubX * hubX + hubY * hubY + hubZ * hubZ);
                ratio = min (hubDist / 6) 1;
                red = 1 / 10 + ratio * (7 / 10);
                green = 7 / 10 - ratio * (5 / 10);
                blue = 5 / 10 + ratio * (3 / 10)
            in concat (map (\<lambda>j.
                 (let r = red + real j * (5 / 100);
                      g = green - real j * (3 / 100);
                      b = blue + real j * (2 / 100)
                  in [r, g, b, r * (8 / 10), g * (8 / 10), b * (8 / 10)])) [0..<3])))
      else
        (case hexToRgbNorm (lineColorFlat CONFIG) of (r, g, b) \<Rightarrow>
           concat (map (\<lambda>j. [r, g, b, r * (8 / 10), g * (8 / 10), b * (8 / 10)]) [0..<3])))"

text \<open>
  What one iteration of the hub loop appends to \<^verbatim>\<open>linePositions\<close>, \<^verbatim>\<open>lineColors\<close> and
  \<^verbatim>\<open>lineOpacities\<close>. It makes 54 draws: one for the anchor, three for the jitter of the
  virtual hub, fifty probes. The sort is JavaScript's stable sort on \<^verbatim>\<open>dist\<close>. A hub
  needs three neighbours, and a neighbour is only recorded when the anchor's own position
  is defined, so the \<open>None\<close> branch below is never taken.
\<close>

definition buildHub ::
  "(nat \<Rightarrow> real) \<Rightarrow> real list \<Rightarrow> real \<Rightarrow> nat \<Rightarrow> real list \<times> real list \<times> real list" where
  "buildHub rs positions replacementPercentage p =
     (let hubIndex = randomIndex (rs p);
          hubOffset = 5 / 100;
          potentialNeighbors =
            sort_key nb_dist (probeLoop rs positions hubIndex 50 (p + 4) [])
      in if length potentialNeighbors \<ge> 3 then
           (case point positions hubIndex of
              None \<Rightarrow> ([], [], [])
            | Some (hubX, hubY, hubZ) \<Rightarrow>
                (let virtualHubX = hubX + (rs (p + 1) * 2 - 1) * hubOffset;
                     virtualHubY = hubY + (rs (p + 2) * 2 - 1) * hubOffset;
                     virtualHubZ = hubZ + (rs (p + 3) * 2 - 1) * hubOffset;
                     spoke = (\<lambda>k. case nb_position (potentialNeighbors ! k) of
                                (x, y, z) \<Rightarrow> [virtualHubX, virtualHubY, virtualHubZ, x, y, z]);
                     initialOpacity = (if replacementPercentage \<ge> 1 then 5 / 10 else 1 / 100)
                 in (spoke 0 @ spoke 1 @ spoke 2,
                     hubColors (hubX, hubY, hubZ),
                     [initialOpacity, initialOpacity, initialOpacity])))
         else ([], [], []))"

text \<open>The hub loop \<^verbatim>\<open>for (let i = 0; i < numHubsToCreate; i++)\<close>.\<close>

fun hubLoop ::
  "(nat \<Rightarrow> real) \<Rightarrow> real list \<Rightarrow> real \<Rightarrow> nat \<Rightarrow> nat \<Rightarrow>
   real list \<times> real list \<times> real list \<Rightarrow> real list \<times> real list \<times> real list" where
  "hubLoop rs positions replacementPercentage 0 p acc = acc"
| "hubLoop rs positions replacementPercentage (Suc n) p acc =
     (case (acc, buildHub rs positions replacementPercentage p) of
        ((lp, lc, lo), (a, b, c)) \<Rightarrow>
          hubLoop rs positions replacementPercentage n (p + 54) (lp @ a, lc @ b, lo @ c))"

text \<open>
  \<^verbatim>\<open>explicitConnectionCount || Math.floor((NUM_CONNECTED_POINTS / 4) * replacementPercentage)\<close>:
  a count that is null or 0 falls back to the percentage. The callers pass integers.
\<close>

definition numHubsToCreate :: "real \<Rightarrow> int option \<Rightarrow> int" where
  "numHubsToCreate replacementPercentage explicitConnectionCount =
     (case explicitConnectionCount of
        Some n \<Rightarrow>
          if n \<noteq> 0 then n
          else \<lfloor>(real_of_int NUM_CONNECTED_POINTS / 4) * replacementPercentage\<rfloor>
      | None \<Rightarrow> \<lfloor>(real_of_int NUM_CONNECTED_POINTS / 4) * replacementPercentage\<rfloor>)"

text \<open>
  \<^verbatim>\<open>createConnections\<close>. The loop runs \<open>numHubsToCreate\<close> times (not at all for a
  negative count) and each iteration makes 54 draws. \<open>hubsCount\<close> is
  \<^verbatim>\<open>lineOpacities.length / 3\<close>; the length is a multiple of 3, so the integer quotient is
  the value. A new \<^verbatim>\<open>LineSegments\<close> object is visible.
\<close>

definition createConnections ::
  "(nat \<Rightarrow> real) \<Rightarrow> real list \<Rightarrow> real \<Rightarrow> real \<Rightarrow> int option \<Rightarrow> sys \<Rightarrow> sys" where
  "createConnections rs positions tCreate replacementPercentage explicitConnectionCount s0 =
     (let s = (if replacementPercentage \<ge> 1 then
                 (case connections s0 of
                    Some l \<Rightarrow> s0\<lparr> connections := None, scene := removeAll l (scene s0) \<rparr>
                  | None \<Rightarrow> s0)
               else s0);
          n = nat (numHubsToCreate replacementPercentage explicitConnectionCount);
          built = hubLoop rs positions replacementPercentage n (randomPos s) ([], [], []);
          s1 = s\<lparr> randomPos := randomPos s + 54 * n \<rparr>
      in case built of (linePos, lineColors, lineOpacities) \<Rightarrow>
        if length linePos > 0 then
          (let newConnections =
                 \<lparr> cid = nextId s1, linePositions = linePos, colors = lineColors,
                   visible = True, opacities = lineOpacities,
                   state = (if replacementPercentage \<ge> 1 then Active else FadingIn),
                   startTime = tCreate, hubsCount = length lineOpacities div 3 \<rparr>;
               s2 = s1\<lparr> nextId := Suc (nextId s1) \<rparr>
           in if replacementPercentage \<ge> 1 then
                s2\<lparr> connections := Some (cid newConnections),
                    active := [newConnections], fadingIn := [], fadingOut := [],
                    pendingRemoval := [],
                    scene := scene s2 @ [cid newConnections] \<rparr>
              else
                (case connections s2 of
                   None \<Rightarrow>
                     s2\<lparr> connections := Some (cid newConnections),
                         active := active s2 @ [newConnections],
                         scene := scene s2 @ [cid newConnections] \<rparr>
                 | Some l \<Rightarrow>
                     s2\<lparr> fadingIn := fadingIn s2 @ [newConnections],
                         scene := scene s2 @ [cid newConnections] \<rparr>))
        else s1)"

subsection \<open>The lifecycle tick\<close>

text \<open>
  The colour loops write the first \<open>6 * opacities.length\<close> entries of the colour array
  (every entry, for a batch made by the builder).
\<close>

definition mapFirst :: "nat \<Rightarrow> ('a \<Rightarrow> 'a) \<Rightarrow> 'a list \<Rightarrow> 'a list" where
  "mapFirst n f xs = map f (take n xs) @ drop n xs"

definition fadeInColors :: "real \<Rightarrow> conn \<Rightarrow> conn" where
  "fadeInColors tNow c =
     (let elapsed = tNow - startTime c;
          progress = elapsed / FADE_IN_DURATION;
          opacity = (6 / 10) * progress
      in c\<lparr> colors := mapFirst (6 * length (opacities c))
                         (\<lambda>v. v * (9 / 10) + (1 / 10) * opacity) (colors c) \<rparr>)"

text \<open>
  The loop over \<^verbatim>\<open>connectionStates.fadingIn\<close>; with \<^verbatim>\<open>splice(i, 1); i--\<close> it visits
  every batch once, in order. \<open>keep\<close> is what stays in the bucket, \<open>act\<close> is
  \<^verbatim>\<open>connectionStates.active\<close>.
\<close>

fun fadeInLoop :: "real \<Rightarrow> conn list \<Rightarrow> conn list \<Rightarrow> conn list \<Rightarrow> conn list \<times> conn list" where
  "fadeInLoop tNow [] keep act = (keep, act)"
| "fadeInLoop tNow (c # cs) keep act =
     (let elapsed = tNow - startTime c in
      if elapsed > FADE_IN_DURATION then fadeInLoop tNow cs keep (act @ [c])
      else fadeInLoop tNow cs (keep @ [fadeInColors tNow c]) act)"

definition fadeOutColors :: "real \<Rightarrow> conn \<Rightarrow> conn" where
  "fadeOutColors tNow c =
     (let elapsed = tNow - startTime c;
          progress = elapsed / FADE_OUT_DURATION;
          easedProgress = 1 - (1 - progress) ^ 3;
          fadeOutFactor = 1 - easedProgress
      in c\<lparr> colors := mapFirst (6 * length (opacities c))
                         (\<lambda>v. v * (95 / 100) * fadeOutFactor) (colors c),
            visible := (if fadeOutFactor < 1 / 10 then False else visible c) \<rparr>)"

fun fadeOutLoop :: "real \<Rightarrow> conn list \<Rightarrow> conn list \<Rightarrow> conn list \<Rightarrow> conn list \<times> conn list" where
  "fadeOutLoop tNow [] keep pend = (keep, pend)"
| "fadeOutLoop tNow (c # cs) keep pend =
     (let elapsed = tNow - startTime c in
      if elapsed > FADE_OUT_DURATION then fadeOutLoop tNow cs keep (pend @ [c])
      else fadeOutLoop tNow cs (keep @ [fadeOutColors tNow c]) pend)"

definition pulseColors :: "real \<Rightarrow> conn \<Rightarrow> conn" where
  "pulseColors tNow c =
     c\<lparr> colors :=
          map (\<lambda>m. if m < 6 * length (opacities c)
                   then (colors c ! m) * (95 / 100)
                        + (5 / 100) * (5 / 10 + (2 / 10) * sin (tNow * 2 + real (m div 6) * (1 / 10)))
                   else colors c ! m)
              [0..<length (colors c)] \<rparr>"

definition hubSum :: "conn list \<Rightarrow> int" where
  "hubSum cs = foldl (\<lambda>sum conn. sum + int (hubsCount conn)) 0 cs"

definition updateConnections :: "real \<Rightarrow> sys \<Rightarrow> sys" where
  "updateConnections tNow s =
     (let scene1 = foldl (\<lambda>sc conn. removeAll (cid conn) sc) (scene s) (pendingRemoval s);
          (fadingIn1, active1) = fadeInLoop tNow (fadingIn s) [] (active s);
          (fadingOut1, pending1) = fadeOutLoop tNow (fadingOut s) [] [];
          active2 = map (pulseColors tNow) active1;
          a = hubSum active2; i = hubSum fadingIn1; out = hubSum fadingOut1
      in s\<lparr> scene := scene1, pendingRemoval := pending1, fadingIn := fadingIn1,
            fadingOut := fadingOut1, active := active2,
            connectionStats := \<lparr> stat_active = a, stat_fadingIn = i, stat_fadingOut = out,
                                 stat_total = a + i + out \<rparr> \<rparr>)"

subsection \<open>The population balancer and the frame\<close>

definition demote :: "real \<Rightarrow> conn \<Rightarrow> conn" where
  "demote tNow conn = conn\<lparr> state := FadingOut, startTime := tNow \<rparr>"

text \<open>
  The overflow loop \<^verbatim>\<open>for (i = 0; i < numToRemove && active.length > 0; i++)\<close>: the
  first argument counts the iterations left.
\<close>

fun overflowLoop :: "nat \<Rightarrow> real \<Rightarrow> sys \<Rightarrow> sys" where
  "overflowLoop 0 tNow s = s"
| "overflowLoop (Suc n) tNow s =
     (case active s of
        [] \<Rightarrow> s
      | conn # rest \<Rightarrow>
          overflowLoop n tNow
            (s\<lparr> active := rest, fadingOut := fadingOut s @ [demote tNow conn] \<rparr>))"

text \<open>
  The loop of the normal branch has no test on the bucket: \<^verbatim>\<open>shift()\<close> on an empty
  array returns \<^verbatim>\<open>undefined\<close> and the assignment to \<^verbatim>\<open>conn.state\<close> throws a TypeError,
  the value \<open>None\<close>.
\<close>

fun normalLoop :: "nat \<Rightarrow> real \<Rightarrow> sys \<Rightarrow> sys option" where
  "normalLoop 0 tNow s = Some s"
| "normalLoop (Suc n) tNow s =
     (case active s of
        [] \<Rightarrow> None
      | conn # rest \<Rightarrow>
          normalLoop n tNow
            (s\<lparr> active := rest, fadingOut := fadingOut s @ [demote tNow conn] \<rparr>))"

definition numToRemove :: "sys \<Rightarrow> int" where
  "numToRemove s =
     (let excessConnections = stat_total (connectionStats s) - TARGET_CONNECTIONS
      in min (int (length (active s))) \<lceil>real_of_int excessConnections * (3 / 10)\<rceil>)"

definition actualFadeOut :: "sys \<Rightarrow> int" where
  "actualFadeOut s =
     (let numToFadeOut =
            max 1 \<lceil>real (length (active s)) * CONNECTION_REFRESH_RATE\<rceil>;
          minActiveToKeep = \<lfloor>real_of_int TARGET_CONNECTIONS * (6 / 10)\<rfloor>
      in if int (length (active s)) - numToFadeOut < minActiveToKeep
         then int (length (active s)) - minActiveToKeep
         else numToFadeOut)"

text \<open>The two demotion branches of \<^verbatim>\<open>render\<close> (lines 514 to 546).\<close>

definition fadeOutOld :: "real \<Rightarrow> sys \<Rightarrow> sys option" where
  "fadeOutOld tNow s =
     (let totalCurrentConnections = stat_total (connectionStats s) in
      if totalCurrentConnections > MAX_TOTAL_CONNECTIONS
      then Some (overflowLoop (nat (numToRemove s)) tNow s)
      else if length (active s) > 0 then
        (if actualFadeOut s > 0 then normalLoop (nat (actualFadeOut s)) tNow s else Some s)
      else Some s)"

definition connectionsToAdd :: "stats \<Rightarrow> int" where
  "connectionsToAdd st =
     (let deficit = TARGET_CONNECTIONS - (stat_total st - stat_fadingOut st)
      in min 20 \<lceil>real_of_int deficit * (2 / 10)\<rceil>)"

text \<open>
  The spawning branch (lines 548 to 564). \<^verbatim>\<open>points\<close> and its geometry exist once the
  setup is done, so that test is not modelled.
\<close>

definition spawnNew :: "(nat \<Rightarrow> real) \<Rightarrow> real list \<Rightarrow> real \<Rightarrow> sys \<Rightarrow> sys" where
  "spawnNew rs positions tCreate s =
     (let totalCurrentConnections = stat_total (connectionStats s) in
      if totalCurrentConnections < MAX_TOTAL_CONNECTIONS
         \<and> totalCurrentConnections - stat_fadingOut (connectionStats s) + 20 < TARGET_CONNECTIONS
      then
        (if connectionsToAdd (connectionStats s) > 0
         then createConnections rs positions tCreate CONNECTION_REFRESH_RATE
                (Some (connectionsToAdd (connectionStats s))) s
         else s)
      else s)"

text \<open>
  One frame. \<open>positions\<close> is the point array after the frame's point animation, which
  is not modelled (nor are the rotations): no bucket depends on them.
\<close>

definition render :: "(nat \<Rightarrow> real) \<Rightarrow> real list \<Rightarrow> real \<Rightarrow> real \<Rightarrow> sys \<Rightarrow> sys option" where
  "render rs positions tNow tCreate s =
     (if initialSetupDone s \<and> tNow \<ge> nextConnectionUpdateTime s then
        (case fadeOutOld tNow (s\<lparr> nextConnectionUpdateTime := tNow + SMALL_BATCH_INTERVAL \<rparr>) of
           None \<Rightarrow> None
         | Some s1 \<Rightarrow> Some (updateConnections tNow (spawnNew rs positions tCreate s1)))
      else Some (updateConnections tNow s))"

text \<open>The state when the script is loaded, and \<^verbatim>\<open>createInitialConnections\<close>.\<close>

definition initialState :: sys where
  "initialState =
     \<lparr> connections = None, active = [], fadingIn = [], fadingOut = [], pendingRemoval = [],
       scene = [],
       connectionStats = \<lparr> stat_active = 0, stat_fadingIn = 0, stat_fadingOut = 0, stat_total = 0 \<rparr>,
       nextConnectionUpdateTime = 0, initialSetupDone = False, randomPos = 0, nextId = 0 \<rparr>"

definition createInitialConnections :: "(nat \<Rightarrow> real) \<Rightarrow> real list \<Rightarrow> real \<Rightarrow> sys \<Rightarrow> sys" where
  "createInitialConnections rs positions tCreate s =
     (createConnections rs positions tCreate 1 (Some INITIAL_CONNECTIONS) s)
       \<lparr> initialSetupDone := True \<rparr>"

subsection \<open>Resize\<close>

text \<open>
  The quotient of two window dimensions (non-negative integers) as JavaScript computes
  it: a finite number, \<^verbatim>\<open>Infinity\<close> for a positive width over zero, \<^verbatim>\<open>NaN\<close> for zero
  over zero.
\<close>

datatype jsnum = Finite real | PosInfinity | NaN

definition js_div :: "nat \<Rightarrow> nat \<Rightarrow> jsnum" where
  "js_div a b = (if b = 0 then (if a = 0 then NaN else PosInfinity) else Finite (real a / real b))"

text \<open>
  The camera and the renderer. \<^verbatim>\<open>updateProjectionMatrix\<close> belongs to three.js; the
  model records the aspect value it reads to rebuild the projection matrix.
\<close>

record view =
  aspect :: jsnum
  projectionAspect :: jsnum
  rendererSize :: "nat \<times> nat"

definition resize :: "nat \<Rightarrow> nat \<Rightarrow> view \<Rightarrow> view" where
  "resize width height v =
     (let v1 = v\<lparr> aspect := js_div width height \<rparr>;
          v2 = v1\<lparr> projectionAspect := aspect v1 \<rparr>
      in v2\<lparr> rendererSize := (width, height) \<rparr>)"

definition isFinite :: "jsnum \<Rightarrow> bool" where
  "isFinite x = (case x of Finite r \<Rightarrow> True | _ \<Rightarrow> False)"

section \<open>Notions used to state the properties\<close>

subsection \<open>Buckets\<close>

text \<open>
  The ids held by the four buckets, in lifecycle order, and the stage of an id: 0 in
  \<open>fadingIn\<close>, 1 in \<open>active\<close>, 2 in \<open>fadingOut\<close>, 3 in \<open>pendingRemoval\<close>, 4 when no
  bucket holds it (not yet created, or deleted).
\<close>

definition bucketIds :: "sys \<Rightarrow> nat list" where
  "bucketIds s =
     map cid (fadingIn s) @ map cid (active s) @ map cid (fadingOut s) @ map cid (pendingRemoval s)"

definition bucketRank :: "sys \<Rightarrow> nat \<Rightarrow> nat" where
  "bucketRank s i =
     (if i \<in> set (map cid (fadingIn s)) then 0
      else if i \<in> set (map cid (active s)) then 1
      else if i \<in> set (map cid (fadingOut s)) then 2
      else if i \<in> set (map cid (pendingRemoval s)) then 3
      else 4)"

text \<open>No batch is held twice, and every held batch was allocated.\<close>

definition oneBucket :: "sys \<Rightarrow> bool" where
  "oneBucket s = (distinct (bucketIds s) \<and> list_all (\<lambda>i. i < nextId s) (bucketIds s))"

definition allHubs :: "sys \<Rightarrow> int" where
  "allHubs s = hubSum (active s) + hubSum (fadingIn s) + hubSum (fadingOut s)"

subsection \<open>Sampling\<close>

text \<open>
  Point \<open>k\<close> passes the distance test against the anchor \<open>hubIndex\<close>; a recorded
  neighbour is sound for the anchor.
\<close>

definition qualifies :: "real list \<Rightarrow> int \<Rightarrow> int \<Rightarrow> bool" where
  "qualifies positions hubIndex k =
     (case (point positions k, point positions hubIndex) of
        (Some q, Some h) \<Rightarrow> distance q h < CONNECTION_THRESHOLD
      | _ \<Rightarrow> False)"

definition candidateOK :: "real list \<Rightarrow> int \<Rightarrow> neighbor \<Rightarrow> bool" where
  "candidateOK positions hubIndex c =
     (nb_index c \<noteq> hubIndex \<and> nb_dist c < CONNECTION_THRESHOLD \<and>
      point positions (nb_index c) = Some (nb_position c) \<and>
      (case point positions hubIndex of
         Some h \<Rightarrow> nb_dist c = distance (nb_position c) h
       | None \<Rightarrow> False))"

definition initialOpacity :: "real \<Rightarrow> real" where
  "initialOpacity replacementPercentage = (if replacementPercentage \<ge> 1 then 5 / 10 else 1 / 100)"

text \<open>A batch as an incremental build makes it, from at most \<open>n\<close> requested hubs.\<close>

definition freshBatch :: "sys \<Rightarrow> real \<Rightarrow> nat \<Rightarrow> conn \<Rightarrow> bool" where
  "freshBatch s tCreate n new =
     (cid new = nextId s \<and> state new = FadingIn \<and> startTime new = tCreate \<and> visible new
      \<and> 1 \<le> hubsCount new \<and> hubsCount new \<le> n
      \<and> opacities new = replicate (3 * hubsCount new) (1 / 100)
      \<and> length (linePositions new) = 18 * hubsCount new
      \<and> length (colors new) = 18 * hubsCount new)"

subsection \<open>Concrete inputs\<close>

text \<open>
  Fifty thousand points on a segment of the x axis, point \<open>i\<close> at \<open>(i / 50000, 0, 0)\<close>,
  and a stream of draws that picks anchor 0 and then point 1 at every probe.
\<close>

definition examplePositions :: "real list" where
  "examplePositions = map (\<lambda>m. if m mod 3 = 0 then real (m div 3) / 50000 else 0) [0..<150000]"

definition repeatDraws :: "nat \<Rightarrow> real" where
  "repeatDraws j = (if j = 0 then 0 else 1 / 50000)"

text \<open>
  A view before a resize; a batch with \<open>h\<close> hubs; a state whose only non-empty bucket is
  \<open>active\<close>, with statistics that agree with it. \<open>overflowState\<close> holds 100 active batches
  of 7 hubs (700 hubs, above the ceiling), \<open>refreshState\<close> 300 active batches of one hub.
\<close>

definition exampleView :: view where
  "exampleView = \<lparr> aspect = Finite (4 / 3), projectionAspect = Finite (4 / 3), rendererSize = (800, 600) \<rparr>"

definition exampleBatch :: "nat \<Rightarrow> nat \<Rightarrow> conn" where
  "exampleBatch i h =
     \<lparr> cid = i, linePositions = replicate (18 * h) 0, colors = replicate (18 * h) (1 / 2),
       visible = True, opacities = replicate (3 * h) (1 / 2), state = Active,
       startTime = 0, hubsCount = h \<rparr>"

definition exampleSys :: "conn list \<Rightarrow> sys" where
  "exampleSys act =
     \<lparr> connections = Some 0, active = act, fadingIn = [], fadingOut = [], pendingRemoval = [],
       scene = map cid act,
       connectionStats = \<lparr> stat_active = hubSum act, stat_fadingIn = 0, stat_fadingOut = 0,
                            stat_total = hubSum act \<rparr>,
       nextConnectionUpdateTime = 0, initialSetupDone = True, randomPos = 0,
       nextId = length act \<rparr>"

definition overflowState :: sys where
  "overflowState = exampleSys (map (\<lambda>i. exampleBatch i 7) [0..<100])"

definition refreshState :: sys where
  "refreshState = exampleSys (map (\<lambda>i. exampleBatch i 1) [0..<300])"

text \<open>The state after an initial build of one batch of 300 hubs.\<close>

definition spawnState :: sys where
  "spawnState = exampleSys [exampleBatch 0 300]"

text \<open>The three coordinates of a position, and the jittered hub position of an anchor.\<close>

definition xyz :: "real \<times> real \<times> real \<Rightarrow> real list" where
  "xyz q = (case q of (x, y, z) \<Rightarrow> [x, y, z])"

definition virtualHub :: "(nat \<Rightarrow> real) \<Rightarrow> nat \<Rightarrow> real \<times> real \<times> real \<Rightarrow> real list" where
  "virtualHub rs p h =
     (case h of (hubX, hubY, hubZ) \<Rightarrow>
        [hubX + (rs (p + 1) * 2 - 1) * (5 / 100),
         hubY + (rs (p + 2) * 2 - 1) * (5 / 100),
         hubZ + (rs (p + 3) * 2 - 1) * (5 / 100)])"

text \<open>
  A stream whose first 16200 draws are 0 (the 300 anchors of the initial build, each with
  50 probes that hit the anchor itself) and whose later draws pick point 1; and the state
  after the initial build on it, which made no hub.
\<close>

definition lateDraws :: "nat \<Rightarrow> real" where
  "lateDraws j = (if j \<le> 16200 then 0 else 1 / 50000)"

definition emptyStart :: sys where
  "emptyStart = createInitialConnections lateDraws examplePositions 0 initialState"

subsection \<open>Frames\<close>

text \<open>
  The inputs of one frame, and the frame loop (\<^verbatim>\<open>requestAnimationFrame(render)\<close>) over a
  list of them.
\<close>

record frame =
  f_positions :: "real list"
  f_tNow :: real
  f_tCreate :: real

fun frames :: "(nat \<Rightarrow> real) \<Rightarrow> frame list \<Rightarrow> sys \<Rightarrow> sys option" where
  "frames rs [] s = Some s"
| "frames rs (f # fs) s =
     (case render rs (f_positions f) (f_tNow f) (f_tCreate f) s of
        None \<Rightarrow> None
      | Some s' \<Rightarrow> frames rs fs s')"

text \<open>A state with one batch in every bucket, at time 10.\<close>

definition lifecycleState :: sys where
  "lifecycleState =
     \<lparr> connections = Some 0,
       active = [exampleBatch 0 2],
       fadingIn = [(exampleBatch 3 1)\<lparr> state := FadingIn, startTime := 10 \<rparr>],
       fadingOut = [(exampleBatch 1 1)\<lparr> state := FadingOut, startTime := 10 \<rparr>],
       pendingRemoval = [(exampleBatch 2 1)\<lparr> state := FadingOut, startTime := 8 \<rparr>],
       scene = [0, 1, 2, 3],
       connectionStats = \<lparr> stat_active = 2, stat_fadingIn = 1, stat_fadingOut = 1, stat_total = 4 \<rparr>,
       nextConnectionUpdateTime = 11, initialSetupDone = True, randomPos = 16254,
       nextId = 4 \<rparr>"

section \<open>Auxiliary lemmas\<close>

subsection \<open>The demotion loops\<close>

lemma overflowLoop_eq:
  "overflowLoop n tNow s =
     s\<lparr> active := drop n (active s),
        fadingOut := fadingOut s @ map (demote tNow) (take n (active s)) \<rparr>"
proof (induction n arbitrary: s)
  case 0
  then show ?case by simp
next
  case (Suc n)
  show ?case
  proof (cases "active s")
    case Nil
    then show ?thesis by simp
  next
    case (Cons c rest)
    then show ?thesis by (simp add: Suc.IH)
  qed
qed

lemma normalLoop_eq:
  "normalLoop n tNow s =
     (if n \<le> length (active s)
      then Some (s\<lparr> active := drop n (active s),
                    fadingOut := fadingOut s @ map (demote tNow) (take n (active s)) \<rparr>)
      else None)"
proof (induction n arbitrary: s)
  case 0
  then show ?case by simp
next
  case (Suc n)
  show ?case
  proof (cases "active s")
    case Nil
    then show ?thesis by simp
  next
    case (Cons c rest)
    then show ?thesis by (simp add: Suc.IH)
  qed
qed

lemma minActive_val: "\<lfloor>real_of_int TARGET_CONNECTIONS * (6 / 10)\<rfloor> = 240"
  by (simp add: TARGET_CONNECTIONS_def)

lemma numToFadeOut_le:
  assumes "0 < n"
  shows "max 1 \<lceil>real n * CONNECTION_REFRESH_RATE\<rceil> \<le> int n"
proof -
  have "real n * (5 / 100) \<le> real n" by simp
  then have "\<lceil>real n * (5 / 100)\<rceil> \<le> int n"
    by (simp add: ceiling_le_iff)
  with assms show ?thesis by (simp add: CONNECTION_REFRESH_RATE_def)
qed

lemma actualFadeOut_le:
  "0 < length (active s) \<Longrightarrow> actualFadeOut s \<le> int (length (active s))"
  using numToFadeOut_le [of "length (active s)"]
  unfolding actualFadeOut_def Let_def minActive_val by simp

lemma actualFadeOut_floor:
  "0 < actualFadeOut s \<Longrightarrow>
   min (int (length (active s))) 240 \<le> int (length (active s)) - actualFadeOut s"
  unfolding actualFadeOut_def Let_def minActive_val by (simp split: if_splits)

lemma fadeOutOld_cases:
  "\<exists>k \<le> length (active s).
     fadeOutOld tNow s =
       Some (s\<lparr> active := drop k (active s),
                fadingOut := fadingOut s @ map (demote tNow) (take k (active s)) \<rparr>)
     \<and> (stat_total (connectionStats s) \<le> MAX_TOTAL_CONNECTIONS \<longrightarrow>
          min (int (length (active s))) 240 \<le> int (length (active s)) - int k)"
proof (cases "stat_total (connectionStats s) > MAX_TOTAL_CONNECTIONS")
  case True
  let ?k = "min (nat (numToRemove s)) (length (active s))"
  have "fadeOutOld tNow s = Some (s\<lparr> active := drop ?k (active s),
                fadingOut := fadingOut s @ map (demote tNow) (take ?k (active s)) \<rparr>)"
    using True by (simp add: fadeOutOld_def overflowLoop_eq min_def)
  with True show ?thesis by (intro exI [of _ ?k]) simp
next
  case False
  show ?thesis
  proof (cases "0 < length (active s) \<and> 0 < actualFadeOut s")
    case True
    let ?k = "nat (actualFadeOut s)"
    from True actualFadeOut_le [of s] have le: "?k \<le> length (active s)" by simp
    with True False have "fadeOutOld tNow s = Some (s\<lparr> active := drop ?k (active s),
                fadingOut := fadingOut s @ map (demote tNow) (take ?k (active s)) \<rparr>)"
      by (simp add: fadeOutOld_def normalLoop_eq)
    moreover from True actualFadeOut_floor [of s]
    have "min (int (length (active s))) 240 \<le> int (length (active s)) - int ?k" by simp
    ultimately show ?thesis using le by (intro exI [of _ ?k]) simp
  next
    case F2: False
    with False have "fadeOutOld tNow s = Some s"
      by (auto simp: fadeOutOld_def)
    then show ?thesis by (intro exI [of _ 0]) simp
  qed
qed

subsection \<open>The tick, bucket by bucket\<close>

lemma fadeInLoop_eq:
  "fadeInLoop tNow cs keep act =
     (keep @ map (fadeInColors tNow) (filter (\<lambda>c. \<not> tNow - startTime c > FADE_IN_DURATION) cs),
      act @ filter (\<lambda>c. tNow - startTime c > FADE_IN_DURATION) cs)"
  by (induction cs arbitrary: keep act) (simp_all add: Let_def)

lemma fadeOutLoop_eq:
  "fadeOutLoop tNow cs keep pend =
     (keep @ map (fadeOutColors tNow) (filter (\<lambda>c. \<not> tNow - startTime c > FADE_OUT_DURATION) cs),
      pend @ filter (\<lambda>c. tNow - startTime c > FADE_OUT_DURATION) cs)"
  by (induction cs arbitrary: keep pend) (simp_all add: Let_def)

lemma cid_fadeInColors [simp]: "cid (fadeInColors t c) = cid c"
  by (simp add: fadeInColors_def Let_def)
lemma cid_fadeOutColors [simp]: "cid (fadeOutColors t c) = cid c"
  by (simp add: fadeOutColors_def Let_def)
lemma cid_pulseColors [simp]: "cid (pulseColors t c) = cid c"
  by (simp add: pulseColors_def)
lemma cid_demote [simp]: "cid (demote t c) = cid c"
  by (simp add: demote_def)

lemma set_foldl_removeAll:
  "set (foldl (\<lambda>sc conn. removeAll (cid conn) sc) sc cs) = set sc - cid ` set cs"
  by (induction cs arbitrary: sc) auto

lemma updateConnections_fadingIn:
  "fadingIn (updateConnections tNow s) =
     map (fadeInColors tNow) (filter (\<lambda>c. \<not> tNow - startTime c > FADE_IN_DURATION) (fadingIn s))"
  by (simp add: updateConnections_def fadeInLoop_eq fadeOutLoop_eq Let_def)

lemma updateConnections_active:
  "active (updateConnections tNow s) =
     map (pulseColors tNow)
       (active s @ filter (\<lambda>c. tNow - startTime c > FADE_IN_DURATION) (fadingIn s))"
  by (simp add: updateConnections_def fadeInLoop_eq fadeOutLoop_eq Let_def)

lemma updateConnections_fadingOut:
  "fadingOut (updateConnections tNow s) =
     map (fadeOutColors tNow) (filter (\<lambda>c. \<not> tNow - startTime c > FADE_OUT_DURATION) (fadingOut s))"
  by (simp add: updateConnections_def fadeInLoop_eq fadeOutLoop_eq Let_def)

lemma updateConnections_pendingRemoval:
  "pendingRemoval (updateConnections tNow s) =
     filter (\<lambda>c. tNow - startTime c > FADE_OUT_DURATION) (fadingOut s)"
  by (simp add: updateConnections_def fadeInLoop_eq fadeOutLoop_eq Let_def)

lemma updateConnections_scene:
  "set (scene (updateConnections tNow s)) = set (scene s) - cid ` set (pendingRemoval s)"
  by (simp add: updateConnections_def fadeInLoop_eq fadeOutLoop_eq Let_def set_foldl_removeAll)

lemma updateConnections_nextId [simp]: "nextId (updateConnections tNow s) = nextId s"
  by (simp add: updateConnections_def fadeInLoop_eq fadeOutLoop_eq Let_def)

lemmas updateConnections_buckets =
  updateConnections_fadingIn updateConnections_active updateConnections_fadingOut
  updateConnections_pendingRemoval

lemma map_cid_comp [simp]:
  "map (cid \<circ> fadeInColors t) xs = map cid xs"
  "map (cid \<circ> fadeOutColors t) xs = map cid xs"
  "map (cid \<circ> pulseColors t) xs = map cid xs"
  "map (cid \<circ> demote t) xs = map cid xs"
  by (simp_all add: comp_def)

subsection \<open>The tick keeps the buckets apart and moves batches forward\<close>

lemma distinct_mset_subset:
  assumes "distinct xs" "mset ys \<subseteq># mset xs"
  shows "distinct ys"
  unfolding distinct_count_atmost_1
proof (intro allI)
  fix a
  from assms(1) have "count (mset xs) a \<le> 1"
    by (simp add: distinct_count_atmost_1)
  with mset_subset_eq_count [OF assms(2), of a] have le: "count (mset ys) a \<le> 1"
    by simp
  show "count (mset ys) a = (if a \<in> set ys then 1 else 0)"
  proof (cases "a \<in> set ys")
    case True
    then have "count (mset ys) a > 0" by (simp add: count_greater_zero_iff)
    with le have "count (mset ys) a = 1" by linarith
    with True show ?thesis by simp
  next
    case False
    then show ?thesis by (simp add: count_eq_zero_iff)
  qed
qed

lemma oneBucket_subI:
  assumes "oneBucket s" "mset (bucketIds s') \<subseteq># mset (bucketIds s)" "nextId s \<le> nextId s'"
  shows "oneBucket s'"
proof -
  from assms(1,2) have "distinct (bucketIds s')"
    by (auto simp: oneBucket_def intro: distinct_mset_subset)
  moreover have "set (bucketIds s') \<subseteq> set (bucketIds s)"
    using set_mset_mono [OF assms(2)] by simp
  with assms(1,3) have "list_all (\<lambda>i. i < nextId s') (bucketIds s')"
    by (fastforce simp: oneBucket_def list_all_iff)
  ultimately show ?thesis by (simp add: oneBucket_def)
qed

lemma mset_filter_cid:
  "mset (map cid (filter P xs)) + mset (map cid (filter (\<lambda>x. \<not> P x) xs)) = mset (map cid xs)"
  by (induction xs) simp_all

lemma oneBucket_updateConnections:
  assumes "oneBucket s"
  shows "oneBucket (updateConnections tNow s)"
proof (rule oneBucket_subI [OF assms])
  let ?pin = "\<lambda>c. tNow - startTime c > FADE_IN_DURATION"
  let ?pout = "\<lambda>c. tNow - startTime c > FADE_OUT_DURATION"
  have "mset (bucketIds (updateConnections tNow s)) =
        (mset (map cid (filter ?pin (fadingIn s)))
          + mset (map cid (filter (\<lambda>c. \<not> ?pin c) (fadingIn s))))
        + mset (map cid (active s))
        + (mset (map cid (filter ?pout (fadingOut s)))
          + mset (map cid (filter (\<lambda>c. \<not> ?pout c) (fadingOut s))))"
    unfolding bucketIds_def updateConnections_buckets by simp
  also have "\<dots> = mset (map cid (fadingIn s)) + mset (map cid (active s))
                    + mset (map cid (fadingOut s))"
    unfolding mset_filter_cid ..
  also have "\<dots> \<subseteq># mset (bucketIds s)"
    by (simp add: bucketIds_def)
  finally show "mset (bucketIds (updateConnections tNow s)) \<subseteq># mset (bucketIds s)" .
qed simp

lemma bucketRank_mono:
  assumes "i \<in> cid ` set (fadingIn s') \<Longrightarrow> i \<in> cid ` set (fadingIn s)"
    and "i \<in> cid ` set (active s') \<Longrightarrow> i \<in> cid ` set (fadingIn s) \<union> cid ` set (active s)"
    and "i \<in> cid ` set (fadingOut s') \<Longrightarrow>
           i \<in> cid ` set (fadingIn s) \<union> cid ` set (active s) \<union> cid ` set (fadingOut s)"
    and "i \<in> cid ` set (pendingRemoval s') \<Longrightarrow>
           i \<in> cid ` set (fadingIn s) \<union> cid ` set (active s) \<union> cid ` set (fadingOut s)
             \<union> cid ` set (pendingRemoval s)"
  shows "bucketRank s i \<le> bucketRank s' i"
  using assms unfolding bucketRank_def set_map by (auto split: if_splits)

lemma bucketRank_updateConnections:
  "bucketRank s i \<le> bucketRank (updateConnections tNow s) i"
  by (rule bucketRank_mono) (auto simp: updateConnections_buckets)

lemma bucketRank_pending_deleted:
  assumes "bucketRank s i \<ge> 3"
  shows "bucketRank (updateConnections tNow s) i = 4"
  using assms unfolding bucketRank_def set_map
  by (auto simp: updateConnections_buckets split: if_splits)

subsection \<open>The sampler and the shape of a build\<close>

lemma probeLoop_index:
  "map nb_index (probeLoop rs positions hubIndex n p acc) =
     map nb_index acc @
     filter (\<lambda>k. k \<noteq> hubIndex \<and> qualifies positions hubIndex k)
       (map (\<lambda>j. randomIndex (rs j)) [p..<p + n])"
proof (induction n arbitrary: p acc)
  case 0
  then show ?case by simp
next
  case (Suc n)
  have upt: "[p..<p + Suc n] = p # [Suc p..<Suc p + n]"
    by (simp add: upt_rec)
  show ?case
    unfolding upt
    by (simp add: Suc.IH Let_def qualifies_def split: option.splits)
qed

lemma probeLoop_candidateOK:
  "list_all (candidateOK positions hubIndex) acc \<Longrightarrow>
   list_all (candidateOK positions hubIndex) (probeLoop rs positions hubIndex n p acc)"
proof (induction n arbitrary: p acc)
  case 0
  then show ?case by simp
next
  case (Suc n)
  let ?k = "randomIndex (rs p)"
  show ?case
  proof (cases "?k \<noteq> hubIndex \<and> qualifies positions hubIndex ?k")
    case False
    then have "probeLoop rs positions hubIndex (Suc n) p acc
               = probeLoop rs positions hubIndex n (Suc p) acc"
      by (auto simp: Let_def qualifies_def split: option.splits)
    with Suc show ?thesis by simp
  next
    case True
    then obtain q h where qh: "point positions ?k = Some q" "point positions hubIndex = Some h"
      "distance q h < CONNECTION_THRESHOLD"
      by (auto simp: qualifies_def split: option.splits)
    let ?c = "\<lparr> nb_index = ?k, nb_dist = distance q h, nb_position = q \<rparr>"
    from True qh have "probeLoop rs positions hubIndex (Suc n) p acc
               = probeLoop rs positions hubIndex n (Suc p) (acc @ [?c])"
      by (simp add: Let_def)
    moreover from True qh have "candidateOK positions hubIndex ?c"
      by (simp add: candidateOK_def)
    ultimately show ?thesis using Suc by simp
  qed
qed

lemma length_hubColors [simp]: "length (hubColors h) = 18"
  by (cases h) (simp add: hubColors_def Let_def upt_rec split: prod.splits)

lemma sorted3:
  assumes "sorted (map f xs)" "3 \<le> length xs"
  shows "xs = xs ! 0 # xs ! 1 # xs ! 2 # drop 3 xs
         \<and> f (xs ! 0) \<le> f (xs ! 1) \<and> f (xs ! 1) \<le> f (xs ! 2)
         \<and> (\<forall>r \<in> set (drop 3 xs). f (xs ! 2) \<le> f r)"
proof -
  from assms(2) obtain a b c rest where xs: "xs = a # b # c # rest"
    by (cases xs; cases "tl xs"; cases "tl (tl xs)") auto
  with assms(1) show ?thesis by auto
qed

lemma examplePoint:
  "0 \<le> i \<Longrightarrow> i < 50000 \<Longrightarrow> point examplePositions i = Some (real_of_int i / 50000, 0, 0)"
proof -
  assume i: "0 \<le> i" "i < 50000"
  define n where "n = nat i"
  with i have n: "n < 50000" "real_of_int i = real n" "0 \<le> i" by auto
  have "n * 3 + 2 < 150000" "n * 3 + 1 < 150000" "n * 3 < 150000" using n by auto
  moreover have "Suc (n * 3) mod 3 = 1" "Suc (Suc (n * 3)) mod 3 = 2" by presburger+
  ultimately show ?thesis
    unfolding point_def examplePositions_def n_def [symmetric] n(2)
    using n(3) by simp
qed

lemma sqrt_lt_2 [simp]: "sqrt x < 2 \<longleftrightarrow> x < 4"
proof -
  have "sqrt x < sqrt 4 \<longleftrightarrow> x < 4" by (rule real_sqrt_less_iff)
  then show ?thesis by simp
qed

lemma spoke_length:
  "length (case q of (x, y, z) \<Rightarrow> [a, b, c, x, y, z]) = 6"
  by (cases q) simp

lemma buildHub_cases:
  "buildHub rs positions repl p = ([], [], []) \<or>
   (\<exists>a b. length a = 18 \<and> length b = 18 \<and>
      buildHub rs positions repl p = (a, b, replicate 3 (initialOpacity repl)))"
proof -
  let ?hubIndex = "randomIndex (rs p)"
  let ?pn = "sort_key nb_dist (probeLoop rs positions ?hubIndex 50 (p + 4) [])"
  show ?thesis
  proof (cases "length ?pn \<ge> 3")
    case False
    then have "buildHub rs positions repl p = ([], [], [])"
      by (simp add: buildHub_def Let_def)
    then show ?thesis ..
  next
    case True
    show ?thesis
    proof (cases "point positions ?hubIndex")
      case None
      with True have "buildHub rs positions repl p = ([], [], [])"
        by (simp add: buildHub_def Let_def)
      then show ?thesis ..
    next
      case (Some h)
      obtain hubX hubY hubZ where h: "h = (hubX, hubY, hubZ)" by (cases h) auto
      have r3: "replicate 3 x = [x, x, x]" for x :: real
        by (simp add: eval_nat_numeral)
      from True Some h show ?thesis
        unfolding buildHub_def Let_def r3 initialOpacity_def
        by (simp add: spoke_length)
    qed
  qed
qed

lemma hubLoop_shape:
  assumes "length lp = 18 * m" "length lc = 18 * m" "lo = replicate (3 * m) (initialOpacity repl)"
  shows "\<exists>k a b. m \<le> k \<and> k \<le> m + n \<and> length a = 18 * k \<and> length b = 18 * k \<and>
           hubLoop rs positions repl n p (lp, lc, lo)
             = (a, b, replicate (3 * k) (initialOpacity repl))"
  using assms
proof (induction n arbitrary: p lp lc lo m)
  case 0
  then show ?case by (intro exI [of _ m]) simp
next
  case (Suc n)
  from buildHub_cases [of rs positions repl p]
  obtain j a b where j: "j \<le> 1" "length a = 18 * j" "length b = 18 * j"
    "buildHub rs positions repl p = (a, b, replicate (3 * j) (initialOpacity repl))"
  proof
    assume "buildHub rs positions repl p = ([], [], [])"
    then show ?thesis by (intro that [of 0 "[]" "[]"]) simp_all
  next
    assume "\<exists>a b. length a = 18 \<and> length b = 18 \<and>
      buildHub rs positions repl p = (a, b, replicate 3 (initialOpacity repl))"
    then obtain a b where "length a = 18" "length b = 18"
      "buildHub rs positions repl p = (a, b, replicate 3 (initialOpacity repl))" by blast
    then show ?thesis by (intro that [of 1 a b]) simp_all
  qed
  have step: "hubLoop rs positions repl (Suc n) p (lp, lc, lo)
        = hubLoop rs positions repl n (p + 54)
            (lp @ a, lc @ b, replicate (3 * (m + j)) (initialOpacity repl))"
    using j(4) Suc.prems(3) by (simp add: replicate_add [symmetric] distrib_left)
  have "\<exists>k a' b'. m + j \<le> k \<and> k \<le> m + j + n \<and> length a' = 18 * k \<and> length b' = 18 * k \<and>
           hubLoop rs positions repl n (p + 54)
             (lp @ a, lc @ b, replicate (3 * (m + j)) (initialOpacity repl))
             = (a', b', replicate (3 * k) (initialOpacity repl))"
    using Suc.prems(1,2) j(2,3)
    by (intro Suc.IH) (simp_all add: distrib_left)
  then obtain k a' b' where k: "m + j \<le> k" "k \<le> m + j + n" "length a' = 18 * k"
    "length b' = 18 * k"
    "hubLoop rs positions repl n (p + 54)
             (lp @ a, lc @ b, replicate (3 * (m + j)) (initialOpacity repl))
             = (a', b', replicate (3 * k) (initialOpacity repl))" by blast
  from k j(1) have "m \<le> k" "k \<le> m + Suc n" by simp_all
  with k(3,4,5) step show ?case by auto
qed

subsection \<open>Hub counts and incremental builds\<close>

lemma hubSum_eq: "hubSum cs = sum_list (map (\<lambda>c. int (hubsCount c)) cs)"
proof -
  have "foldl (\<lambda>sum conn. sum + int (hubsCount conn)) a cs
        = a + sum_list (map (\<lambda>c. int (hubsCount c)) cs)" for a
    by (induction cs arbitrary: a) simp_all
  then show ?thesis by (simp add: hubSum_def)
qed

lemma hubSum_append [simp]: "hubSum (xs @ ys) = hubSum xs + hubSum ys"
  by (simp add: hubSum_eq)

lemma hubSum_single [simp]: "hubSum [c] = int (hubsCount c)"
  by (simp add: hubSum_eq)

lemma hubSum_ge_length:
  "list_all (\<lambda>c. 1 \<le> hubsCount c) cs \<Longrightarrow> int (length cs) \<le> hubSum cs"
  by (induction cs) (simp_all add: hubSum_eq)

lemma createConnections_partial:
  assumes "repl < 1"
  shows "createConnections rs positions tCreate repl e s
           = s\<lparr> randomPos := randomPos s + 54 * nat (numHubsToCreate repl e) \<rparr>
         \<or> (\<exists>new. freshBatch s tCreate (nat (numHubsToCreate repl e)) new \<and>
               createConnections rs positions tCreate repl e s =
                 (case connections s of
                    None \<Rightarrow>
                      s\<lparr> randomPos := randomPos s + 54 * nat (numHubsToCreate repl e),
                         nextId := Suc (nextId s), connections := Some (nextId s),
                         active := active s @ [new], scene := scene s @ [nextId s] \<rparr>
                  | Some l \<Rightarrow>
                      s\<lparr> randomPos := randomPos s + 54 * nat (numHubsToCreate repl e),
                         nextId := Suc (nextId s),
                         fadingIn := fadingIn s @ [new], scene := scene s @ [nextId s] \<rparr>))"
proof -
  let ?n = "nat (numHubsToCreate repl e)"
  obtain lp lc lo where H: "hubLoop rs positions repl ?n (randomPos s) ([], [], []) = (lp, lc, lo)"
    by (cases "hubLoop rs positions repl ?n (randomPos s) ([], [], [])") auto
  from hubLoop_shape [where lp = "[]" and m = 0 and lc = "[]" and lo = "[]" and repl = repl
      and n = ?n and rs = rs and positions = positions and p = "randomPos s"] H
  obtain k where k: "k \<le> ?n" "length lp = 18 * k" "length lc = 18 * k"
    "lo = replicate (3 * k) (initialOpacity repl)"
    by auto
  have pos: "randomPos (if 1 \<le> repl then x else s) = randomPos s" for x
    using assms by simp
  show ?thesis
  proof (cases "k = 0")
    case True
    with k(2) have "lp = []" by simp
    with H assms show ?thesis
      by (simp add: createConnections_def)
  next
    case False
    with k(2) have ne: "lp \<noteq> []" by auto
    let ?new = "\<lparr> cid = nextId s, linePositions = lp, colors = lc,
                   visible = True, opacities = lo, state = FadingIn,
                   startTime = tCreate, hubsCount = length lo div 3 \<rparr>"
    from False k assms have "freshBatch s tCreate ?n ?new"
      by (simp add: freshBatch_def initialOpacity_def)
    moreover from ne H assms have "createConnections rs positions tCreate repl e s =
                 (case connections s of
                    None \<Rightarrow>
                      s\<lparr> randomPos := randomPos s + 54 * ?n,
                         nextId := Suc (nextId s), connections := Some (nextId s),
                         active := active s @ [?new], scene := scene s @ [nextId s] \<rparr>
                  | Some l \<Rightarrow>
                      s\<lparr> randomPos := randomPos s + 54 * ?n,
                         nextId := Suc (nextId s),
                         fadingIn := fadingIn s @ [?new], scene := scene s @ [nextId s] \<rparr>)"
      by (simp add: createConnections_def Let_def split: option.splits)
    ultimately show ?thesis by (intro disjI2 exI [of _ ?new] conjI)
  qed
qed

lemma hubSum_exampleBatches [simp]:
  "hubSum (map (\<lambda>i. exampleBatch i h) [a..<b]) = int h * int (b - a)"
  by (simp add: hubSum_eq exampleBatch_def comp_def sum_list_triv)

lemma connectionsToAdd_bounds:
  assumes "stat_total st - stat_fadingOut st + 20 < TARGET_CONNECTIONS"
  shows "5 \<le> connectionsToAdd st" "connectionsToAdd st \<le> 20"
proof -
  let ?d = "TARGET_CONNECTIONS - (stat_total st - stat_fadingOut st)"
  from assms have "21 \<le> ?d" by simp
  then have "4 < real_of_int ?d * (2 / 10)" by simp
  then have "5 \<le> \<lceil>real_of_int ?d * (2 / 10)\<rceil>" by linarith
  then show "5 \<le> connectionsToAdd st" "connectionsToAdd st \<le> 20"
    by (simp_all add: connectionsToAdd_def Let_def)
qed

lemma numHubsToCreate_Some: "k \<noteq> 0 \<Longrightarrow> numHubsToCreate r (Some k) = k"
  by (simp add: numHubsToCreate_def)

lemma allHubs_createConnections_partial:
  assumes "repl < 1"
  shows "allHubs s \<le> allHubs (createConnections rs positions tCreate repl e s)
         \<and> allHubs (createConnections rs positions tCreate repl e s)
             \<le> allHubs s + int (nat (numHubsToCreate repl e))"
  using createConnections_partial [OF assms, of rs positions tCreate e s]
  by (auto simp: allHubs_def freshBatch_def split: option.splits)

subsection \<open>The builder on the example streams\<close>

lemmas probe_eval = repeatDraws_def randomIndex_def NUM_POINTS_def examplePoint Let_def
     distance_def CONNECTION_THRESHOLD_def

lemma cands_repeat:
  "probeLoop repeatDraws examplePositions 0 50 4 [] =
     replicate 50 \<lparr> nb_index = 1, nb_dist = 1 / 50000, nb_position = (1 / 50000, 0, 0) \<rparr>"
  by (simp add: eval_nat_numeral probe_eval real_sqrt_divide)

lemma sort_key_replicate [simp]: "sort_key f (replicate n x) = replicate n x"
proof (induction n)
  case 0
  then show ?case by simp
next
  case (Suc n)
  have "insort_key f x (replicate n x) = x # replicate n x"
    by (cases n) simp_all
  with Suc show ?case by simp
qed

lemma hubColors_flat:
  "hubColors h = [0, 0, 0, 0, 0, 0, 0, 0, 0, 0, 0, 0, 0, 0, 0, 0, 0, 0]"
  by (simp add: hubColors_def CONFIG_def hexToRgbNorm_def upt_rec)

lemma replicate_3plus:
  "replicate (Suc (Suc (Suc n))) x ! 0 = x"
  "replicate (Suc (Suc (Suc n))) x ! 1 = x"
  "replicate (Suc (Suc (Suc n))) x ! 2 = x"
  by simp_all

lemma buildHub_repeat:
  "buildHub repeatDraws examplePositions (1 / 20) 0 =
     ([- (24999 / 500000), - (24999 / 500000), - (24999 / 500000), 1 / 50000, 0, 0,
       - (24999 / 500000), - (24999 / 500000), - (24999 / 500000), 1 / 50000, 0, 0,
       - (24999 / 500000), - (24999 / 500000), - (24999 / 500000), 1 / 50000, 0, 0],
      [0, 0, 0, 0, 0, 0, 0, 0, 0, 0, 0, 0, 0, 0, 0, 0, 0, 0], [1 / 100, 1 / 100, 1 / 100])"
proof -
  have idx: "randomIndex (repeatDraws 0) = 0"
    by (simp add: repeatDraws_def randomIndex_def)
  have n50: "(50::nat) = Suc (Suc (Suc 47))" by simp
  have jit: "repeatDraws (0 + 1) = 1 / 50000" "repeatDraws (0 + 2) = 1 / 50000"
    "repeatDraws (0 + 3) = 1 / 50000"
    by (simp_all add: repeatDraws_def)
  have pt: "point examplePositions 0 = Some (0, 0, 0)"
    using examplePoint [of 0] by simp
  show ?thesis
    unfolding buildHub_def Let_def idx
    unfolding add_0 cands_repeat sort_key_replicate pt hubColors_flat jit
    unfolding n50 replicate_3plus
    by (simp add: repeatDraws_def)
qed

lemma cands_anchor: "probeLoop (\<lambda>_. 0) examplePositions 0 50 4 [] = []"
  by (simp add: eval_nat_numeral probe_eval)

subsection \<open>The three closest recorded neighbours\<close>

lemma buildHub_three:
  fixes rs positions repl p
  defines "hubIndex \<equiv> randomIndex (rs p)"
  defines "cands \<equiv> probeLoop rs positions hubIndex 50 (p + 4) []"
  assumes three: "3 \<le> length cands"
  shows "\<exists>h n0 n1 n2 rest.
           point positions hubIndex = Some h
           \<and> mset cands = {#n0, n1, n2#} + mset rest
           \<and> nb_dist n0 \<le> nb_dist n1 \<and> nb_dist n1 \<le> nb_dist n2
           \<and> list_all (\<lambda>r. nb_dist n2 \<le> nb_dist r) rest
           \<and> buildHub rs positions repl p =
               (virtualHub rs p h @ xyz (nb_position n0)
                  @ virtualHub rs p h @ xyz (nb_position n1)
                  @ virtualHub rs p h @ xyz (nb_position n2),
                hubColors h,
                [initialOpacity repl, initialOpacity repl, initialOpacity repl])"
proof -
  let ?S = "sort_key nb_dist cands"
  have ok: "list_all (candidateOK positions hubIndex) cands"
    unfolding cands_def by (rule probeLoop_candidateOK) simp
  from three obtain c where "c \<in> set cands" by (cases cands) auto
  with ok have "candidateOK positions hubIndex c" by (simp add: list_all_iff)
  then obtain h where h: "point positions hubIndex = Some h"
    by (auto simp: candidateOK_def split: option.splits)
  obtain hubX hubY hubZ where hx: "h = (hubX, hubY, hubZ)" by (cases h) auto
  have "sorted (map nb_dist ?S)" by (rule sorted_sort_key)
  moreover from three have "3 \<le> length ?S" by simp
  ultimately have S: "?S = ?S ! 0 # ?S ! 1 # ?S ! 2 # drop 3 ?S"
    "nb_dist (?S ! 0) \<le> nb_dist (?S ! 1)" "nb_dist (?S ! 1) \<le> nb_dist (?S ! 2)"
    "\<forall>r \<in> set (drop 3 ?S). nb_dist (?S ! 2) \<le> nb_dist r"
    using sorted3 [of nb_dist ?S] by blast+
  have "mset cands = mset ?S" by simp
  also have "\<dots> = mset (?S ! 0 # ?S ! 1 # ?S ! 2 # drop 3 ?S)" using S(1) by simp
  finally have m: "mset cands = {#?S ! 0, ?S ! 1, ?S ! 2#} + mset (drop 3 ?S)" by simp
  have sp: "(case q of (x, y, z) \<Rightarrow> [a, b, c, x, y, z]) = [a, b, c] @ xyz q" for q a b c
    by (cases q) (simp add: xyz_def)
  from three h hx have b: "buildHub rs positions repl p =
               (virtualHub rs p h @ xyz (nb_position (?S ! 0))
                  @ virtualHub rs p h @ xyz (nb_position (?S ! 1))
                  @ virtualHub rs p h @ xyz (nb_position (?S ! 2)),
                hubColors h,
                [initialOpacity repl, initialOpacity repl, initialOpacity repl])"
    unfolding buildHub_def Let_def cands_def hubIndex_def sp
    by (simp add: virtualHub_def initialOpacity_def)
  from h m S(2,3,4) b show ?thesis
    unfolding list_all_iff by blast
qed

lemma buildHub_few:
  assumes "length (probeLoop rs positions (randomIndex (rs p)) 50 (p + 4) []) < 3"
  shows "buildHub rs positions repl p = ([], [], [])"
  using assms by (simp add: buildHub_def Let_def)

lemma length_filter_conj_le:
  "length (filter (\<lambda>x. P x \<and> Q x) xs) \<le> length xs - length (filter (\<lambda>x. \<not> P x) xs)"
proof -
  have "length (filter (\<lambda>x. P x \<and> Q x) xs) \<le> length (filter P xs)"
    by (induction xs) auto
  moreover have "length (filter P xs) + length (filter (\<lambda>x. \<not> P x) xs) = length xs"
    by (rule sum_length_filter_compl)
  ultimately show ?thesis by linarith
qed

subsection \<open>Builds that make no hub\<close>

lemma buildHub_all_anchor:
  assumes "\<And>j. p + 4 \<le> j \<Longrightarrow> j < p + 54 \<Longrightarrow> randomIndex (rs j) = randomIndex (rs p)"
  shows "buildHub rs positions repl p = ([], [], [])"
proof -
  have "filter (\<lambda>k. k \<noteq> randomIndex (rs p) \<and> qualifies positions (randomIndex (rs p)) k)
          (map (\<lambda>j. randomIndex (rs j)) [p + 4..<p + 4 + 50]) = []"
    using assms by (auto simp: filter_empty_conv)
  then have "map nb_index (probeLoop rs positions (randomIndex (rs p)) 50 (p + 4) []) = []"
    using probeLoop_index [of rs positions "randomIndex (rs p)" 50 "p + 4" "[]"] by simp
  then have "length (probeLoop rs positions (randomIndex (rs p)) 50 (p + 4) []) < 3" by simp
  then show ?thesis by (simp add: buildHub_def Let_def)
qed

lemma hubLoop_nothing:
  assumes "\<And>i. i < n \<Longrightarrow> buildHub rs positions repl (p + 54 * i) = ([], [], [])"
  shows "hubLoop rs positions repl n p acc = acc"
  using assms
proof (induction n arbitrary: p acc)
  case 0
  then show ?case by simp
next
  case (Suc n)
  have "buildHub rs positions repl p = ([], [], [])"
    using Suc.prems [of 0] by simp
  moreover have "hubLoop rs positions repl n (p + 54) acc = acc"
  proof (rule Suc.IH)
    fix i assume "i < n"
    then show "buildHub rs positions repl (p + 54 + 54 * i) = ([], [], [])"
      using Suc.prems [of "Suc i"] by (simp add: add.assoc)
  qed
  ultimately show ?case by (cases acc) simp
qed

lemma buildHub_late_early:
  assumes "q + 54 \<le> 16200"
  shows "buildHub lateDraws examplePositions repl q = ([], [], [])"
  using assms by (intro buildHub_all_anchor) (simp add: lateDraws_def)

lemma buildHub_late_after:
  assumes "16200 < q"
  shows "buildHub lateDraws examplePositions repl q = ([], [], [])"
  using assms by (intro buildHub_all_anchor) (simp add: lateDraws_def)

lemma emptyStart_eq:
  "emptyStart = initialState\<lparr> randomPos := 16200, initialSetupDone := True \<rparr>"
proof -
  have n: "nat (numHubsToCreate 1 (Some INITIAL_CONNECTIONS)) = 300"
    by (simp add: numHubsToCreate_def INITIAL_CONNECTIONS_def)
  have "buildHub lateDraws examplePositions 1 (0 + 54 * i) = ([], [], [])" if "i < 300" for i
    using that by (intro buildHub_late_early) simp
  then have "hubLoop lateDraws examplePositions 1 300 0 ([], [], []) = ([], [], [])"
    by (rule hubLoop_nothing)
  then show ?thesis
    unfolding emptyStart_def createInitialConnections_def createConnections_def Let_def n
    by (simp add: initialState_def)
qed

lemma probeLoop_numeral:
  "probeLoop rs positions hubIndex (numeral k) p acc =
     (let otherIndex = randomIndex (rs p) in
      if otherIndex = hubIndex then probeLoop rs positions hubIndex (pred_numeral k) (Suc p) acc
      else
        (case (point positions otherIndex, point positions hubIndex) of
           (Some q, Some h) \<Rightarrow>
             (let dist = distance q h in
              if dist < CONNECTION_THRESHOLD
              then probeLoop rs positions hubIndex (pred_numeral k) (Suc p)
                     (acc @ [\<lparr> nb_index = otherIndex, nb_dist = dist, nb_position = q \<rparr>])
              else probeLoop rs positions hubIndex (pred_numeral k) (Suc p) acc)
         | _ \<Rightarrow> probeLoop rs positions hubIndex (pred_numeral k) (Suc p) acc))"
  unfolding numeral_eq_Suc by (rule probeLoop.simps)

lemma cands_late:
  "probeLoop lateDraws examplePositions 0 50 16204 [] =
     replicate 50 \<lparr> nb_index = 1, nb_dist = 1 / 50000, nb_position = (1 / 50000, 0, 0) \<rparr>"
proof -
  have r: "replicate 50 x = [x, x, x, x, x, x, x, x, x, x, x, x, x, x, x, x, x, x, x, x, x, x, x, x, x,
      x, x, x, x, x, x, x, x, x, x, x, x, x, x, x, x, x, x, x, x, x, x, x, x, x]" for x :: neighbor
    by (simp add: eval_nat_numeral)
  show ?thesis
    unfolding r
    by (simp add: probeLoop_numeral lateDraws_def randomIndex_def NUM_POINTS_def examplePoint Let_def
     distance_def CONNECTION_THRESHOLD_def real_sqrt_divide)
qed


lemma buildHub_late:
  "buildHub lateDraws examplePositions (1 / 20) 16200 =
     ([- (24999 / 500000), - (24999 / 500000), - (24999 / 500000), 1 / 50000, 0, 0,
       - (24999 / 500000), - (24999 / 500000), - (24999 / 500000), 1 / 50000, 0, 0,
       - (24999 / 500000), - (24999 / 500000), - (24999 / 500000), 1 / 50000, 0, 0],
      [0, 0, 0, 0, 0, 0, 0, 0, 0, 0, 0, 0, 0, 0, 0, 0, 0, 0], [1 / 100, 1 / 100, 1 / 100])"
proof -
  have idx: "randomIndex (lateDraws 16200) = 0"
    by (simp add: lateDraws_def randomIndex_def)
  have n50: "(50::nat) = Suc (Suc (Suc 47))" by simp
  have p4: "(16200::nat) + 4 = 16204" by simp
  have pt: "point examplePositions 0 = Some (0, 0, 0)"
    using examplePoint [of 0] by simp
  show ?thesis
    unfolding buildHub_def Let_def idx
    unfolding p4 cands_late sort_key_replicate pt hubColors_flat
    unfolding n50 replicate_3plus
    by (simp add: lateDraws_def)
qed

lemma hubLoop_late:
  "hubLoop lateDraws examplePositions (1 / 20) 20 16200 ([], [], []) =
     buildHub lateDraws examplePositions (1 / 20) 16200"
proof -
  have later: "hubLoop lateDraws examplePositions (1 / 20) 19 16254 acc = acc" for acc
    by (rule hubLoop_nothing) (simp add: buildHub_late_after)
  have "hubLoop lateDraws examplePositions (1 / 20) 20 16200 ([], [], [])
        = hubLoop lateDraws examplePositions (1 / 20) (Suc 19) 16200 ([], [], [])"
    by simp
  also have "\<dots> = (case (([], [], []), buildHub lateDraws examplePositions (1 / 20) 16200) of
        ((lp, lc, lo), (a, b, c)) \<Rightarrow>
          hubLoop lateDraws examplePositions (1 / 20) 19 (16200 + 54) (lp @ a, lc @ b, lo @ c))"
    by (rule hubLoop.simps)
  also have "\<dots> = buildHub lateDraws examplePositions (1 / 20) 16200"
    by (simp add: later split: prod.splits)
  finally show ?thesis .
qed

subsection \<open>Stages through one frame\<close>

lemma bucketRank_le4 [simp]: "bucketRank s i \<le> 4"
  by (simp add: bucketRank_def)

lemma bucketRank_le1:
  "i \<in> cid ` set (fadingIn s) \<union> cid ` set (active s) \<Longrightarrow> bucketRank s i \<le> 1"
  by (auto simp: bucketRank_def)

lemma bucketRank_le2:
  "i \<in> cid ` set (fadingOut s) \<Longrightarrow> bucketRank s i \<le> 2"
  by (auto simp: bucketRank_def)

lemma bucketRank_le3:
  "i \<in> cid ` set (pendingRemoval s) \<Longrightarrow> bucketRank s i \<le> 3"
  by (auto simp: bucketRank_def)

lemma bucketRank_cases:
  "(bucketRank s i = 0 \<and> i \<in> cid ` set (fadingIn s))
   \<or> (bucketRank s i = 1 \<and> i \<in> cid ` set (active s))
   \<or> (bucketRank s i = 2 \<and> i \<in> cid ` set (fadingOut s))
   \<or> 3 \<le> bucketRank s i"
  by (auto simp: bucketRank_def)

text \<open>The demotion step.\<close>

lemma fadeOutOld_total:
  obtains k where "k \<le> length (active s)"
    "fadeOutOld tNow s =
       Some (s\<lparr> active := drop k (active s),
                fadingOut := fadingOut s @ map (demote tNow) (take k (active s)) \<rparr>)"
  using fadeOutOld_cases [of s tNow] by blast

lemma set_take_drop: "set xs = set (take k xs) \<union> set (drop k xs)"
  by (metis append_take_drop_id set_append)

lemma oneBucket_demoted:
  assumes "oneBucket s"
  shows "oneBucket (s\<lparr> active := drop k (active s),
                fadingOut := fadingOut s @ map (demote tNow) (take k (active s)) \<rparr>)"
proof (rule oneBucket_subI [OF assms])
  have "mset (map cid (drop k (active s))) + mset (map cid (take k (active s)))
        = mset (map cid (active s))"
    by (metis append_take_drop_id map_append mset_append add.commute)
  then show "mset (bucketIds (s\<lparr> active := drop k (active s),
                fadingOut := fadingOut s @ map (demote tNow) (take k (active s)) \<rparr>))
        \<subseteq># mset (bucketIds s)"
    by (simp add: bucketIds_def add.assoc [symmetric])
qed simp

lemma bucketRank_demoted:
  "bucketRank s i \<le> bucketRank (s\<lparr> active := drop k (active s),
                fadingOut := fadingOut s @ map (demote tNow) (take k (active s)) \<rparr>) i"
proof (rule bucketRank_mono)
  show "i \<in> cid ` set (active (s\<lparr> active := drop k (active s),
                fadingOut := fadingOut s @ map (demote tNow) (take k (active s)) \<rparr>)) \<Longrightarrow>
     i \<in> cid ` set (fadingIn s) \<union> cid ` set (active s)"
    by (auto dest: in_set_dropD)
  show "i \<in> cid ` set (fadingOut (s\<lparr> active := drop k (active s),
                fadingOut := fadingOut s @ map (demote tNow) (take k (active s)) \<rparr>)) \<Longrightarrow>
     i \<in> cid ` set (fadingIn s) \<union> cid ` set (active s) \<union> cid ` set (fadingOut s)"
    by (auto dest: in_set_takeD)
qed simp_all

text \<open>The spawning step.\<close>

lemma spawnNew_cases:
  "spawnNew rs positions tCreate s = s
   \<or> (\<exists>n. spawnNew rs positions tCreate s = s\<lparr> randomPos := randomPos s + 54 * n \<rparr>)
   \<or> (\<exists>n new. freshBatch s tCreate n new \<and>
         spawnNew rs positions tCreate s =
           (case connections s of
              None \<Rightarrow>
                s\<lparr> randomPos := randomPos s + 54 * n,
                   nextId := Suc (nextId s), connections := Some (nextId s),
                   active := active s @ [new], scene := scene s @ [nextId s] \<rparr>
            | Some l \<Rightarrow>
                s\<lparr> randomPos := randomPos s + 54 * n,
                   nextId := Suc (nextId s),
                   fadingIn := fadingIn s @ [new], scene := scene s @ [nextId s] \<rparr>))"
proof -
  have rate: "CONNECTION_REFRESH_RATE < 1" by (simp add: CONNECTION_REFRESH_RATE_def)
  show ?thesis
  proof (cases "spawnNew rs positions tCreate s = s")
    case True
    then show ?thesis by simp
  next
    case False
    then have "spawnNew rs positions tCreate s =
        createConnections rs positions tCreate CONNECTION_REFRESH_RATE
          (Some (connectionsToAdd (connectionStats s))) s"
      by (auto simp: spawnNew_def Let_def split: if_splits)
    with createConnections_partial [OF rate, of rs positions tCreate
        "Some (connectionsToAdd (connectionStats s))" s]
    show ?thesis by metis
  qed
qed

lemma oneBucket_fresh:
  assumes "oneBucket s" "cid new = nextId s"
  shows "oneBucket (s\<lparr> randomPos := r, nextId := Suc (nextId s), connections := c,
                       active := active s @ [new], scene := sc \<rparr>)"
    and "oneBucket (s\<lparr> randomPos := r, nextId := Suc (nextId s),
                       fadingIn := fadingIn s @ [new], scene := sc \<rparr>)"
proof -
  from assms have d: "distinct (bucketIds s)" and lt: "\<forall>i \<in> set (bucketIds s). i < nextId s"
    by (simp_all add: oneBucket_def list_all_iff)
  from lt assms(2) have fresh: "cid new \<notin> set (bucketIds s)" by auto
  show "oneBucket (s\<lparr> randomPos := r, nextId := Suc (nextId s), connections := c,
                       active := active s @ [new], scene := sc \<rparr>)"
    using d lt fresh assms(2)
    by (auto simp: oneBucket_def bucketIds_def list_all_iff less_Suc_eq)
  show "oneBucket (s\<lparr> randomPos := r, nextId := Suc (nextId s),
                       fadingIn := fadingIn s @ [new], scene := sc \<rparr>)"
    using d lt fresh assms(2)
    by (auto simp: oneBucket_def bucketIds_def list_all_iff less_Suc_eq)
qed

lemma oneBucket_randomPos [simp]: "oneBucket (s\<lparr> randomPos := r \<rparr>) = oneBucket s"
  by (simp add: oneBucket_def bucketIds_def)

lemma oneBucket_watermark [simp]:
  "oneBucket (s\<lparr> nextConnectionUpdateTime := w \<rparr>) = oneBucket s"
  by (simp add: oneBucket_def bucketIds_def)

lemma bucketRank_watermark [simp]:
  "bucketRank (s\<lparr> nextConnectionUpdateTime := w \<rparr>) i = bucketRank s i"
  by (simp add: bucketRank_def)

lemma spawnNew_props:
  fixes rs positions tCreate s
  defines "s2 \<equiv> spawnNew rs positions tCreate s"
  shows "oneBucket s \<Longrightarrow> oneBucket s2"
    and "i \<noteq> nextId s \<Longrightarrow> bucketRank s2 i = bucketRank s i"
    and "nextId s \<le> nextId s2"
    and "fadingOut s2 = fadingOut s"
    and "pendingRemoval s2 = pendingRemoval s"
    and "set (scene s2) \<subseteq> set (scene s) \<union> {nextId s}"
    and "set (fadingIn s) \<subseteq> set (fadingIn s2)"
    and "set (active s) \<subseteq> set (active s2)"
proof -
  consider (same) "s2 = s"
    | (draws) n where "s2 = s\<lparr> randomPos := randomPos s + 54 * n \<rparr>"
    | (act) n new where "freshBatch s tCreate n new" "connections s = None"
        "s2 = s\<lparr> randomPos := randomPos s + 54 * n,
                   nextId := Suc (nextId s), connections := Some (nextId s),
                   active := active s @ [new], scene := scene s @ [nextId s] \<rparr>"
    | (fin) n new where "freshBatch s tCreate n new"
        "s2 = s\<lparr> randomPos := randomPos s + 54 * n,
                   nextId := Suc (nextId s),
                   fadingIn := fadingIn s @ [new], scene := scene s @ [nextId s] \<rparr>"
    using spawnNew_cases [of rs positions tCreate s] unfolding s2_def
    by (cases "connections s") auto
  note c = this
  show "oneBucket s \<Longrightarrow> oneBucket s2"
    by (cases rule: c) (simp_all add: oneBucket_fresh freshBatch_def)
  show "i \<noteq> nextId s \<Longrightarrow> bucketRank s2 i = bucketRank s i"
    by (cases rule: c) (auto simp: bucketRank_def freshBatch_def)
  show "nextId s \<le> nextId s2" by (cases rule: c) simp_all
  show "fadingOut s2 = fadingOut s" by (cases rule: c) simp_all
  show "pendingRemoval s2 = pendingRemoval s" by (cases rule: c) simp_all
  show "set (scene s2) \<subseteq> set (scene s) \<union> {nextId s}" by (cases rule: c) auto
  show "set (fadingIn s) \<subseteq> set (fadingIn s2)" by (cases rule: c) auto
  show "set (active s) \<subseteq> set (active s2)" by (cases rule: c) auto
qed

lemma updateConnections_ids:
  "cid ` set (fadingIn (updateConnections tNow s))
     = cid ` {c \<in> set (fadingIn s). \<not> tNow - startTime c > FADE_IN_DURATION}"
  "cid ` set (active (updateConnections tNow s))
     = cid ` set (active s) \<union> cid ` {c \<in> set (fadingIn s). tNow - startTime c > FADE_IN_DURATION}"
  "cid ` set (fadingOut (updateConnections tNow s))
     = cid ` {c \<in> set (fadingOut s). \<not> tNow - startTime c > FADE_OUT_DURATION}"
  "cid ` set (pendingRemoval (updateConnections tNow s))
     = cid ` {c \<in> set (fadingOut s). tNow - startTime c > FADE_OUT_DURATION}"
  unfolding updateConnections_buckets by (simp_all add: image_image image_Un)

lemma render_mid:
  "\<exists>s2. render rs positions tNow tCreate s = Some (updateConnections tNow s2)
     \<and> (oneBucket s \<longrightarrow> oneBucket s2)
     \<and> (\<forall>i. i < nextId s \<longrightarrow> bucketRank s i \<le> bucketRank s2 i)
     \<and> nextId s \<le> nextId s2
     \<and> set (fadingOut s) \<subseteq> set (fadingOut s2)
     \<and> pendingRemoval s2 = pendingRemoval s
     \<and> set (scene s2) \<subseteq> set (scene s) \<union> {nextId s}
     \<and> set (fadingIn s) \<subseteq> set (fadingIn s2)
     \<and> (\<forall>c. c \<in> set (active s) \<longrightarrow>
            c \<in> set (active s2) \<or> demote tNow c \<in> set (fadingOut s2))"
proof (cases "initialSetupDone s \<and> tNow \<ge> nextConnectionUpdateTime s")
  case False
  then have "render rs positions tNow tCreate s = Some (updateConnections tNow s)"
    by (auto simp: render_def)
  then show ?thesis by (intro exI [of _ s]) auto
next
  case True
  let ?s0 = "s\<lparr> nextConnectionUpdateTime := tNow + SMALL_BATCH_INTERVAL \<rparr>"
  obtain k where k: "k \<le> length (active ?s0)"
    "fadeOutOld tNow ?s0 =
       Some (?s0\<lparr> active := drop k (active ?s0),
                fadingOut := fadingOut ?s0 @ map (demote tNow) (take k (active ?s0)) \<rparr>)"
    by (rule fadeOutOld_total)
  define sA where "sA = ?s0\<lparr> active := drop k (active ?s0),
                fadingOut := fadingOut ?s0 @ map (demote tNow) (take k (active ?s0)) \<rparr>"
  define s2 where "s2 = spawnNew rs positions tCreate sA"
  note sp = spawnNew_props [where rs = rs and positions = positions and tCreate = tCreate
      and s = sA, folded s2_def]
  have A: "nextId sA = nextId s" "pendingRemoval sA = pendingRemoval s" "scene sA = scene s"
    "fadingIn sA = fadingIn s" "active sA = drop k (active s)"
    "fadingOut sA = fadingOut s @ map (demote tNow) (take k (active s))"
    by (simp_all add: sA_def)
  have oneA: "oneBucket sA" if "oneBucket s"
    unfolding sA_def using that by (intro oneBucket_demoted) simp
  have rankA: "bucketRank s i \<le> bucketRank sA i" for i
    unfolding sA_def using bucketRank_demoted [where s = ?s0 and i = i and k = k and tNow = tNow] by simp
  have r: "render rs positions tNow tCreate s = Some (updateConnections tNow s2)"
    using True k(2) by (simp add: render_def s2_def sA_def)
  have "oneBucket s \<longrightarrow> oneBucket s2" by (intro impI sp(1) oneA)
  moreover have "\<forall>i. i < nextId s \<longrightarrow> bucketRank s i \<le> bucketRank s2 i"
  proof (intro allI impI)
    fix i assume "i < nextId s"
    then show "bucketRank s i \<le> bucketRank s2 i"
      using rankA [of i] sp(2) [of i] A(1) by simp
  qed
  moreover have "nextId s \<le> nextId s2" using sp(3) A(1) by simp
  moreover have "set (fadingOut s) \<subseteq> set (fadingOut s2)" unfolding sp(4) A(6) by auto
  moreover have "pendingRemoval s2 = pendingRemoval s" unfolding sp(5) A(2) ..
  moreover have "set (scene s2) \<subseteq> set (scene s) \<union> {nextId s}" using sp(6) A(1,3) by simp
  moreover have "set (fadingIn s) \<subseteq> set (fadingIn s2)" using sp(7) A(4) by simp
  moreover have "\<forall>c. c \<in> set (active s) \<longrightarrow>
            c \<in> set (active s2) \<or> demote tNow c \<in> set (fadingOut s2)"
  proof (intro allI impI)
    fix c assume "c \<in> set (active s)"
    then have "c \<in> set (take k (active s)) \<or> c \<in> set (drop k (active s))"
      using set_take_drop [of "active s" k] by auto
    then show "c \<in> set (active s2) \<or> demote tNow c \<in> set (fadingOut s2)"
      using sp(8) unfolding sp(4) A(5,6) by auto
  qed
  ultimately show ?thesis using r by (intro exI [of _ s2] conjI)
qed

lemma startTime_demote [simp]: "startTime (demote t c) = t"
  by (simp add: demote_def)

text \<open>One frame keeps every batch in at most one bucket and moves it forward by at most one stage.\<close>

lemma render_step:
  "\<exists>s'. render rs positions tNow tCreate s = Some s'
     \<and> (oneBucket s \<longrightarrow> oneBucket s')
     \<and> nextId s \<le> nextId s'
     \<and> (\<forall>i. i < nextId s \<longrightarrow>
            bucketRank s i \<le> bucketRank s' i \<and> bucketRank s' i \<le> Suc (bucketRank s i))"
proof -
  from render_mid [of rs positions tNow tCreate s]
  obtain s2 where m: "render rs positions tNow tCreate s = Some (updateConnections tNow s2)"
    "oneBucket s \<longrightarrow> oneBucket s2"
    "\<forall>i. i < nextId s \<longrightarrow> bucketRank s i \<le> bucketRank s2 i"
    "nextId s \<le> nextId s2"
    "set (fadingOut s) \<subseteq> set (fadingOut s2)"
    "pendingRemoval s2 = pendingRemoval s"
    "set (scene s2) \<subseteq> set (scene s) \<union> {nextId s}"
    "set (fadingIn s) \<subseteq> set (fadingIn s2)"
    "\<forall>c. c \<in> set (active s) \<longrightarrow>
            c \<in> set (active s2) \<or> demote tNow c \<in> set (fadingOut s2)"
    by (elim exE conjE)
  let ?s' = "updateConnections tNow s2"
  have dur: "\<not> (0::real) > FADE_OUT_DURATION" by (simp add: FADE_OUT_DURATION_def)
  have up: "bucketRank ?s' i \<le> Suc (bucketRank s i)" for i
  proof -
    consider (a) "bucketRank s i = 0" "i \<in> cid ` set (fadingIn s)"
      | (b) "bucketRank s i = 1" "i \<in> cid ` set (active s)"
      | (c) "bucketRank s i = 2" "i \<in> cid ` set (fadingOut s)"
      | (d) "3 \<le> bucketRank s i"
      using bucketRank_cases [of s i] by auto
    then show ?thesis
    proof cases
      case a
      with m(8) have "i \<in> cid ` set (fadingIn s2)" by auto
      then have "i \<in> cid ` set (fadingIn ?s') \<union> cid ` set (active ?s')"
        unfolding updateConnections_ids by auto
      then have "bucketRank ?s' i \<le> 1" by (rule bucketRank_le1)
      with a show ?thesis by simp
    next
      case b
      then obtain c where c: "c \<in> set (active s)" "i = cid c" by auto
      from m(9) c(1) have "c \<in> set (active s2) \<or> demote tNow c \<in> set (fadingOut s2)"
        by blast
      then have "bucketRank ?s' i \<le> 2"
      proof
        assume "c \<in> set (active s2)"
        then have "i \<in> cid ` set (fadingIn ?s') \<union> cid ` set (active ?s')"
          unfolding updateConnections_ids c(2) by auto
        then have "bucketRank ?s' i \<le> 1" by (rule bucketRank_le1)
        then show ?thesis by simp
      next
        assume "demote tNow c \<in> set (fadingOut s2)"
        then have "fadeOutColors tNow (demote tNow c) \<in> set (fadingOut ?s')"
          unfolding updateConnections_buckets using dur by simp
        then have "i \<in> cid ` set (fadingOut ?s')"
          unfolding c(2) by (metis cid_demote cid_fadeOutColors imageI)
        then show ?thesis by (rule bucketRank_le2)
      qed
      with b show ?thesis by simp
    next
      case c
      with m(5) have "i \<in> cid ` set (fadingOut s2)" by auto
      then have "i \<in> cid ` set (fadingOut ?s') \<union> cid ` set (pendingRemoval ?s')"
        unfolding updateConnections_ids by auto
      then have "bucketRank ?s' i \<le> 3"
        using bucketRank_le2 [of i ?s'] bucketRank_le3 [of i ?s'] by auto
      with c show ?thesis by simp
    next
      case d
      have "bucketRank ?s' i \<le> 4" by simp
      with d show ?thesis by linarith
    qed
  qed
  have "oneBucket s \<longrightarrow> oneBucket ?s'"
    using m(2) by (auto intro: oneBucket_updateConnections)
  moreover have "nextId s \<le> nextId ?s'" using m(4) by simp
  moreover have "\<forall>i. i < nextId s \<longrightarrow>
            bucketRank s i \<le> bucketRank ?s' i \<and> bucketRank ?s' i \<le> Suc (bucketRank s i)"
  proof (intro allI impI conjI)
    fix i assume "i < nextId s"
    with m(3) have "bucketRank s i \<le> bucketRank s2 i" by blast
    then show "bucketRank s i \<le> bucketRank ?s' i"
      using bucketRank_updateConnections [of s2 i tNow] by linarith
    show "bucketRank ?s' i \<le> Suc (bucketRank s i)" by (rule up)
  qed
  ultimately show ?thesis using m(1) by (intro exI [of _ ?s'] conjI)
qed

subsection \<open>The initial build and sequences of frames\<close>

lemma oneBucket_full_build:
  assumes "oneBucket s" "1 \<le> repl"
  shows "oneBucket (createConnections rs positions tCreate repl e s)"
proof -
  let ?s = "case connections s of
              Some l \<Rightarrow> s\<lparr> connections := None, scene := removeAll l (scene s) \<rparr>
            | None \<Rightarrow> s"
  have s: "oneBucket ?s" "nextId ?s = nextId s"
    using assms(1) by (auto simp: oneBucket_def bucketIds_def split: option.splits)
  obtain lp lc lo where H:
    "hubLoop rs positions repl (nat (numHubsToCreate repl e)) (randomPos ?s) ([], [], []) = (lp, lc, lo)"
    by (cases "hubLoop rs positions repl (nat (numHubsToCreate repl e)) (randomPos ?s) ([], [], [])") auto
  show ?thesis
  proof (cases "lp = []")
    case True
    with H assms(2) s show ?thesis
      by (simp add: createConnections_def Let_def)
  next
    case False
    with H assms(2) show ?thesis
      by (simp add: createConnections_def Let_def oneBucket_def bucketIds_def)
  qed
qed

lemma oneBucket_initial:
  "oneBucket (createInitialConnections rs positions tCreate initialState)"
proof -
  have "oneBucket initialState" by (simp add: oneBucket_def bucketIds_def initialState_def)
  then have "oneBucket (createConnections rs positions tCreate 1 (Some INITIAL_CONNECTIONS) initialState)"
    by (rule oneBucket_full_build) simp
  then show ?thesis
    by (simp add: createInitialConnections_def oneBucket_def bucketIds_def)
qed

lemma frames_forward:
  "\<exists>s'. frames rs fs s = Some s'
     \<and> (oneBucket s \<longrightarrow> oneBucket s')
     \<and> nextId s \<le> nextId s'
     \<and> (\<forall>i. i < nextId s \<longrightarrow> bucketRank s i \<le> bucketRank s' i)"
proof (induction fs arbitrary: s)
  case Nil
  then show ?case by simp
next
  case (Cons f fs)
  from render_step [of rs "f_positions f" "f_tNow f" "f_tCreate f" s]
  obtain s1 where s1: "render rs (f_positions f) (f_tNow f) (f_tCreate f) s = Some s1"
    "oneBucket s \<longrightarrow> oneBucket s1" "nextId s \<le> nextId s1"
    "\<forall>i. i < nextId s \<longrightarrow> bucketRank s i \<le> bucketRank s1 i"
    by blast
  from Cons.IH [of s1] obtain s' where s': "frames rs fs s1 = Some s'"
    "oneBucket s1 \<longrightarrow> oneBucket s'" "nextId s1 \<le> nextId s'"
    "\<forall>i. i < nextId s1 \<longrightarrow> bucketRank s1 i \<le> bucketRank s' i"
    by blast
  have "\<forall>i. i < nextId s \<longrightarrow> bucketRank s i \<le> bucketRank s' i"
  proof (intro allI impI)
    fix i assume i: "i < nextId s"
    with s1(3) have "i < nextId s1" by simp
    with s'(4) s1(4) i show "bucketRank s i \<le> bucketRank s' i"
      by (meson le_trans)
  qed
  with s1 s' show ?case by (intro exI [of _ s']) simp
qed

lemma oneBucket_fadingOut_rank:
  assumes "oneBucket s" "c \<in> set (fadingOut s)"
  shows "bucketRank s (cid c) = 2" "cid c < nextId s"
  using assms by (auto simp: oneBucket_def bucketIds_def bucketRank_def list_all_iff)

lemma bucketRank_ge2:
  "2 \<le> bucketRank s i \<Longrightarrow> i \<notin> cid ` set (active s) \<union> cid ` set (fadingIn s)"
  by (auto simp: bucketRank_def split: if_splits)

lemma updateConnections_step:
  "bucketRank s i \<le> bucketRank (updateConnections tNow s) i
   \<and> bucketRank (updateConnections tNow s) i \<le> Suc (bucketRank s i)"
proof -
  let ?s' = "updateConnections tNow s"
  consider (a) "bucketRank s i = 0" "i \<in> cid ` set (fadingIn s)"
    | (b) "bucketRank s i = 1" "i \<in> cid ` set (active s)"
    | (c) "bucketRank s i = 2" "i \<in> cid ` set (fadingOut s)"
    | (d) "3 \<le> bucketRank s i"
    using bucketRank_cases [of s i] by auto
  then have "bucketRank ?s' i \<le> Suc (bucketRank s i)"
  proof cases
    case a
    then have "i \<in> cid ` set (fadingIn ?s') \<union> cid ` set (active ?s')"
      unfolding updateConnections_ids by auto
    then have "bucketRank ?s' i \<le> 1" by (rule bucketRank_le1)
    with a show ?thesis by simp
  next
    case b
    then have "i \<in> cid ` set (fadingIn ?s') \<union> cid ` set (active ?s')"
      unfolding updateConnections_ids by auto
    then have "bucketRank ?s' i \<le> 1" by (rule bucketRank_le1)
    with b show ?thesis by simp
  next
    case c
    then have "i \<in> cid ` set (fadingOut ?s') \<union> cid ` set (pendingRemoval ?s')"
      unfolding updateConnections_ids by auto
    then have "bucketRank ?s' i \<le> 3"
      using bucketRank_le2 [of i ?s'] bucketRank_le3 [of i ?s'] by auto
    with c show ?thesis by simp
  next
    case d
    have "bucketRank ?s' i \<le> 4" by simp
    with d show ?thesis by linarith
  qed
  then show ?thesis using bucketRank_updateConnections [of s i tNow] by simp
qed

lemma oneBucket_lifecycleState: "oneBucket lifecycleState"
  by (simp add: oneBucket_def bucketIds_def lifecycleState_def exampleBatch_def)

lemma bucketRank_lifecycleState:
  "bucketRank lifecycleState 3 = 0" "bucketRank lifecycleState 0 = 1"
  "bucketRank lifecycleState 1 = 2" "bucketRank lifecycleState 2 = 3"
  by (simp_all add: bucketRank_def lifecycleState_def exampleBatch_def)

subsection \<open>Expired batches\<close>

lemma oneBucket_same_id:
  assumes "oneBucket s" "c \<in> set (fadingOut s)" "c' \<in> set (fadingOut s)" "cid c' = cid c"
  shows "c' = c"
proof -
  from assms(1) have "distinct (map cid (fadingOut s))"
    by (simp add: oneBucket_def bucketIds_def)
  then have "inj_on cid (set (fadingOut s))" by (simp add: distinct_map)
  with assms(2,3,4) show ?thesis by (auto dest: inj_onD)
qed

lemma render_expired:
  assumes "oneBucket s" "c \<in> set (fadingOut s)" "startTime c + FADE_OUT_DURATION < tNow"
  shows "\<exists>s1. render rs positions tNow tCreate s = Some s1 \<and> oneBucket s1
           \<and> c \<in> set (pendingRemoval s1) \<and> bucketRank s1 (cid c) = 3
           \<and> cid c < nextId s1"
proof -
  from render_mid [of rs positions tNow tCreate s]
  obtain s2 where m: "render rs positions tNow tCreate s = Some (updateConnections tNow s2)"
    "oneBucket s \<longrightarrow> oneBucket s2"
    "\<forall>i. i < nextId s \<longrightarrow> bucketRank s i \<le> bucketRank s2 i"
    "nextId s \<le> nextId s2"
    "set (fadingOut s) \<subseteq> set (fadingOut s2)"
    by (elim exE conjE)
  let ?s1 = "updateConnections tNow s2"
  from assms(1) m(2) have one2: "oneBucket s2" by simp
  then have one1: "oneBucket ?s1" by (rule oneBucket_updateConnections)
  from assms(2) m(5) have c2: "c \<in> set (fadingOut s2)" by auto
  from assms(3) have ex: "tNow - startTime c > FADE_OUT_DURATION" by simp
  with c2 have pend: "c \<in> set (pendingRemoval ?s1)"
    unfolding updateConnections_buckets by simp
  note r = oneBucket_fadingOut_rank [OF one2 c2]
  have "cid c \<notin> cid ` set (fadingOut ?s1)"
  proof
    assume "cid c \<in> cid ` set (fadingOut ?s1)"
    then obtain c' where c': "c' \<in> set (fadingOut s2)" "\<not> tNow - startTime c' > FADE_OUT_DURATION"
      "cid c' = cid c"
      unfolding updateConnections_ids by auto
    from oneBucket_same_id [OF one2 c2 c'(1,3)] c'(2) ex show False by simp
  qed
  moreover from r(1) bucketRank_updateConnections [of s2 "cid c" tNow]
  have "2 \<le> bucketRank ?s1 (cid c)" by simp
  moreover from pend have "bucketRank ?s1 (cid c) \<le> 3"
    by (intro bucketRank_le3) auto
  ultimately have "bucketRank ?s1 (cid c) = 3"
    by (auto simp: bucketRank_def split: if_splits)
  with m(1) one1 pend r(2) show ?thesis by (intro exI [of _ ?s1]) simp
qed

lemma render_deletes_pending:
  assumes "c \<in> set (pendingRemoval s)" "bucketRank s (cid c) = 3" "cid c < nextId s"
  shows "\<exists>s1. render rs positions tNow tCreate s = Some s1
           \<and> cid c \<notin> set (scene s1) \<and> bucketRank s1 (cid c) = 4"
proof -
  from render_mid [of rs positions tNow tCreate s]
  obtain s2 where m: "render rs positions tNow tCreate s = Some (updateConnections tNow s2)"
    "\<forall>i. i < nextId s \<longrightarrow> bucketRank s i \<le> bucketRank s2 i"
    "pendingRemoval s2 = pendingRemoval s"
    "set (scene s2) \<subseteq> set (scene s) \<union> {nextId s}"
    by (elim exE conjE)
  from m(2) assms(2,3) have "3 \<le> bucketRank s2 (cid c)" by auto
  then have "bucketRank (updateConnections tNow s2) (cid c) = 4"
    by (rule bucketRank_pending_deleted)
  moreover from assms(1) m(3) have "cid c \<notin> set (scene (updateConnections tNow s2))"
    unfolding updateConnections_scene by simp
  ultimately show ?thesis using m(1) by simp
qed

subsection \<open>The fades at their start time\<close>

lemma fadeInColors_at_start:
  "fadeInColors (startTime c) c =
     c\<lparr> colors := mapFirst (6 * length (opacities c)) (\<lambda>v. v * (9 / 10)) (colors c) \<rparr>"
  by (simp add: fadeInColors_def Let_def)

lemma fadeOutColors_at_start:
  "fadeOutColors (startTime c) c =
     c\<lparr> colors := mapFirst (6 * length (opacities c)) (\<lambda>v. v * (95 / 100)) (colors c) \<rparr>"
  by (simp add: fadeOutColors_def Let_def)

lemma oneBucket_fadingIn_rank:
  assumes "c \<in> set (fadingIn s)"
  shows "bucketRank s (cid c) = 0"
  using assms by (auto simp: bucketRank_def)

section \<open>The claims\<close>

subsection \<open>C2: resize with zero height\<close>

text \<open>
  C2 says that a resize with height zero is guarded, so that no non-finite value reaches
  the projection matrix. The code has no guard: \<^verbatim>\<open>resize\<close> stores the quotient of width
  and height as the aspect and rebuilds the projection from it.

  C2 as the code has it: after a resize the aspect, and the aspect the projection matrix is
  rebuilt from, are the quotient \<open>width / height\<close> as JavaScript computes it; that value is
  finite exactly when the height is not zero.
\<close>

theorem resize_stores_quotient:
  "aspect (resize width height v) = js_div width height
   \<and> projectionAspect (resize width height v) = js_div width height
   \<and> rendererSize (resize width height v) = (width, height)
   \<and> (isFinite (projectionAspect (resize width height v)) \<longleftrightarrow> height \<noteq> 0)"
  by (simp add: resize_def js_div_def isFinite_def Let_def)

text \<open>The amended statement at an 800 by 600 window.\<close>

theorem resize_stores_quotient_witness:
  "projectionAspect (resize 800 600 exampleView) = Finite (4 / 3)
   \<and> isFinite (projectionAspect (resize 800 600 exampleView))"
  using resize_stores_quotient [of 800 600 exampleView]
  by (simp add: js_div_def isFinite_def)

text \<open>
  C2 as stated fails: a resize to 800 by 0 turns a finite aspect into \<^verbatim>\<open>Infinity\<close> (0 by 0
  gives \<^verbatim>\<open>NaN\<close>), hands it to the projection, and is not a no-op.
\<close>

theorem resize_zero_height_not_guarded:
  "isFinite (projectionAspect exampleView)
   \<and> \<not> isFinite (projectionAspect (resize 800 0 exampleView))
   \<and> projectionAspect (resize 800 0 exampleView) = PosInfinity
   \<and> projectionAspect (resize 0 0 exampleView) = NaN
   \<and> resize 800 0 exampleView \<noteq> exampleView"
  by (simp add: resize_def js_div_def isFinite_def Let_def exampleView_def)

subsection \<open>C3: demotion above the ceiling\<close>


subsection \<open>C4: the floor of the normal branch\<close>

text \<open>
  C4: in the normal branch (total at most \<open>MAX_TOTAL_CONNECTIONS\<close>) the demotion returns a
  state, and an active population of at least \<open>floor(TARGET_CONNECTIONS * 0.6)\<close> stays at
  least that large. This holds for the population counted in batches, as the code counts
  it, and for the population counted in hubs when every active batch has at least one hub
  (as every batch made by the builder has).
\<close>

theorem normal_branch_keeps_floor:
  assumes "stat_total (connectionStats s) \<le> MAX_TOTAL_CONNECTIONS"
  shows "\<exists>s'. fadeOutOld tNow s = Some s'
           \<and> (\<lfloor>real_of_int TARGET_CONNECTIONS * (6 / 10)\<rfloor> \<le> int (length (active s))
                \<longrightarrow> \<lfloor>real_of_int TARGET_CONNECTIONS * (6 / 10)\<rfloor> \<le> int (length (active s')))
           \<and> (list_all (\<lambda>c. 1 \<le> hubsCount c) (active s)
                \<and> \<lfloor>real_of_int TARGET_CONNECTIONS * (6 / 10)\<rfloor> \<le> hubSum (active s)
                \<longrightarrow> \<lfloor>real_of_int TARGET_CONNECTIONS * (6 / 10)\<rfloor> \<le> hubSum (active s'))"
proof -
  from fadeOutOld_cases [of s tNow] assms obtain k where k: "k \<le> length (active s)"
    "fadeOutOld tNow s =
       Some (s\<lparr> active := drop k (active s),
                fadingOut := fadingOut s @ map (demote tNow) (take k (active s)) \<rparr>)"
    "min (int (length (active s))) 240 \<le> int (length (active s)) - int k"
    by blast
  let ?s' = "s\<lparr> active := drop k (active s),
                fadingOut := fadingOut s @ map (demote tNow) (take k (active s)) \<rparr>"
  have len: "240 \<le> int (length (active s)) \<longrightarrow> 240 \<le> int (length (active ?s'))"
    using k(1,3) by auto
  have hubs: "240 \<le> hubSum (active ?s')"
    if ok: "list_all (\<lambda>c. 1 \<le> hubsCount c) (active s)" and h: "240 \<le> hubSum (active s)"
  proof (cases "240 \<le> int (length (active s))")
    case True
    with len have "240 \<le> int (length (drop k (active s)))" by simp
    moreover from ok have "list_all (\<lambda>c. 1 \<le> hubsCount c) (drop k (active s))"
      by (auto simp: list_all_iff dest: in_set_dropD)
    then have "int (length (drop k (active s))) \<le> hubSum (drop k (active s))"
      by (rule hubSum_ge_length)
    ultimately show ?thesis by simp
  next
    case False
    with k(3) have "k = 0" by auto
    with h show ?thesis by simp
  qed
  show ?thesis
    unfolding minActive_val using k(2) len hubs by (intro exI [of _ ?s']) blast
qed

text \<open>C4 at 300 active batches of one hub: 15 are demoted, 285 stay.\<close>

theorem normal_branch_keeps_floor_witness:
  "stat_total (connectionStats refreshState) \<le> MAX_TOTAL_CONNECTIONS
   \<and> list_all (\<lambda>c. 1 \<le> hubsCount c) (active refreshState)
   \<and> 240 \<le> int (length (active refreshState))
   \<and> 240 \<le> hubSum (active refreshState)
   \<and> (\<exists>s'. fadeOutOld 5 refreshState = Some s'
          \<and> 240 \<le> int (length (active s')) \<and> 240 \<le> hubSum (active s'))"
proof -
  have a: "stat_total (connectionStats refreshState) \<le> MAX_TOTAL_CONNECTIONS"
    by (simp add: refreshState_def exampleSys_def MAX_TOTAL_CONNECTIONS_def)
  have b: "list_all (\<lambda>c. 1 \<le> hubsCount c) (active refreshState)"
    by (simp add: refreshState_def exampleSys_def list_all_iff exampleBatch_def)
  have c: "240 \<le> int (length (active refreshState))" "240 \<le> hubSum (active refreshState)"
    by (simp_all add: refreshState_def exampleSys_def)
  from normal_branch_keeps_floor [OF a, of 5] a b c show ?thesis
    unfolding minActive_val by blast
qed

subsection \<open>C7: spawning is rate limited\<close>

text \<open>
  C7: the spawning branch changes the state only when the total is below
  \<open>MAX_TOTAL_CONNECTIONS\<close> and the total without the fading-out hubs, plus 20, is below
  \<open>TARGET_CONNECTIONS\<close>; it then calls the builder for exactly
  \<open>min(20, ceil(0.2 * (TARGET_CONNECTIONS - (total - fadingOut))))\<close> hubs, and the hubs
  held by the three counted buckets grow by at most 20.
\<close>

theorem spawn_rate_limit:
  fixes s :: sys
  defines "tot \<equiv> stat_total (connectionStats s)"
    and "out \<equiv> stat_fadingOut (connectionStats s)"
  shows "(spawnNew rs positions tCreate s \<noteq> s \<longrightarrow>
            tot < MAX_TOTAL_CONNECTIONS \<and> tot - out + 20 < TARGET_CONNECTIONS)
         \<and> (tot < MAX_TOTAL_CONNECTIONS \<and> tot - out + 20 < TARGET_CONNECTIONS \<longrightarrow>
              spawnNew rs positions tCreate s =
                createConnections rs positions tCreate CONNECTION_REFRESH_RATE
                  (Some (min 20 \<lceil>real_of_int (TARGET_CONNECTIONS - (tot - out)) * (2 / 10)\<rceil>)) s
              \<and> numHubsToCreate CONNECTION_REFRESH_RATE
                  (Some (min 20 \<lceil>real_of_int (TARGET_CONNECTIONS - (tot - out)) * (2 / 10)\<rceil>))
                 = min 20 \<lceil>real_of_int (TARGET_CONNECTIONS - (tot - out)) * (2 / 10)\<rceil>)
         \<and> allHubs s \<le> allHubs (spawnNew rs positions tCreate s)
         \<and> allHubs (spawnNew rs positions tCreate s) \<le> allHubs s + 20"
proof -
  let ?k = "min 20 \<lceil>real_of_int (TARGET_CONNECTIONS - (tot - out)) * (2 / 10)\<rceil>"
  have k: "connectionsToAdd (connectionStats s) = ?k"
    by (simp add: connectionsToAdd_def tot_def out_def)
  have rate: "CONNECTION_REFRESH_RATE < 1" by (simp add: CONNECTION_REFRESH_RATE_def)
  show ?thesis
  proof (cases "tot < MAX_TOTAL_CONNECTIONS \<and> tot - out + 20 < TARGET_CONNECTIONS")
    case False
    then have "spawnNew rs positions tCreate s = s"
      by (auto simp: spawnNew_def tot_def out_def)
    with False show ?thesis by (simp add: allHubs_def) blast
  next
    case True
    then have b: "5 \<le> ?k" "?k \<le> 20"
      using connectionsToAdd_bounds [of "connectionStats s"] unfolding k
      by (simp_all add: tot_def out_def)
    with True have sp: "spawnNew rs positions tCreate s =
        createConnections rs positions tCreate CONNECTION_REFRESH_RATE (Some ?k) s"
      unfolding spawnNew_def Let_def k by (simp add: tot_def out_def)
    from b have "?k \<noteq> 0" by linarith
    then have n: "numHubsToCreate CONNECTION_REFRESH_RATE (Some ?k) = ?k"
      by (rule numHubsToCreate_Some)
    from allHubs_createConnections_partial [OF rate, of s rs positions tCreate "Some ?k"] b
    have "allHubs s \<le> allHubs (spawnNew rs positions tCreate s)"
      "allHubs (spawnNew rs positions tCreate s) \<le> allHubs s + 20"
      unfolding sp n by linarith+
    with True sp n show ?thesis by simp
  qed
qed

text \<open>C7 after an initial build of 300 hubs: the deficit is 100 and 20 hubs are requested.\<close>

theorem spawn_rate_limit_witness:
  "stat_total (connectionStats spawnState) < MAX_TOTAL_CONNECTIONS
   \<and> stat_total (connectionStats spawnState) - stat_fadingOut (connectionStats spawnState) + 20
       < TARGET_CONNECTIONS
   \<and> spawnNew repeatDraws examplePositions 6 spawnState =
       createConnections repeatDraws examplePositions 6 CONNECTION_REFRESH_RATE (Some 20) spawnState
   \<and> allHubs (spawnNew repeatDraws examplePositions 6 spawnState) \<le> 320"
proof -
  have st: "stat_total (connectionStats spawnState) = 300"
    "stat_fadingOut (connectionStats spawnState) = 0" "allHubs spawnState = 300"
    by (simp_all add: spawnState_def exampleSys_def exampleBatch_def allHubs_def hubSum_eq)
  from spawn_rate_limit [of repeatDraws examplePositions 6 spawnState]
  show ?thesis
    unfolding st by (auto simp: MAX_TOTAL_CONNECTIONS_def TARGET_CONNECTIONS_def)
qed

subsection \<open>C6: three spokes to the three closest sampled neighbours\<close>

text \<open>
  C6, for the anchor drawn at stream position \<open>p\<close>, with \<open>cands\<close> the neighbours its fifty
  probes recorded: every recorded neighbour is another point under the distance threshold;
  with fewer than three of them the iteration emits nothing; with at least three it emits
  exactly three spokes, from the jittered hub position to three recorded neighbours that
  are in ascending order of distance and no farther than any other recorded neighbour.
  A whole build emits some \<open>k\<close> hubs, at most the number requested, as \<open>18 * k\<close>
  coordinates, \<open>18 * k\<close> colour values and \<open>3 * k\<close> opacities: no partial hub.
\<close>

theorem hub_has_three_closest_spokes:
  fixes rs positions repl p
  defines "hubIndex \<equiv> randomIndex (rs p)"
  defines "cands \<equiv> probeLoop rs positions hubIndex 50 (p + 4) []"
  shows "list_all (candidateOK positions hubIndex) cands
     \<and> (length cands < 3 \<longrightarrow> buildHub rs positions repl p = ([], [], []))
     \<and> (3 \<le> length cands \<longrightarrow>
          (\<exists>h n0 n1 n2 rest.
             point positions hubIndex = Some h
             \<and> mset cands = {#n0, n1, n2#} + mset rest
             \<and> nb_dist n0 \<le> nb_dist n1 \<and> nb_dist n1 \<le> nb_dist n2
             \<and> list_all (\<lambda>r. nb_dist n2 \<le> nb_dist r) rest
             \<and> buildHub rs positions repl p =
                 (virtualHub rs p h @ xyz (nb_position n0)
                    @ virtualHub rs p h @ xyz (nb_position n1)
                    @ virtualHub rs p h @ xyz (nb_position n2),
                  hubColors h,
                  [initialOpacity repl, initialOpacity repl, initialOpacity repl])))
     \<and> (\<exists>k lp lc. k \<le> n \<and> length lp = 18 * k \<and> length lc = 18 * k
            \<and> hubLoop rs positions repl n q ([], [], [])
                = (lp, lc, replicate (3 * k) (initialOpacity repl)))"
proof -
  have "list_all (candidateOK positions hubIndex) cands"
    unfolding cands_def by (rule probeLoop_candidateOK) simp
  moreover have "length cands < 3 \<longrightarrow> buildHub rs positions repl p = ([], [], [])"
    unfolding cands_def hubIndex_def by (simp add: buildHub_few)
  moreover have "3 \<le> length cands \<longrightarrow>
          (\<exists>h n0 n1 n2 rest.
             point positions hubIndex = Some h
             \<and> mset cands = {#n0, n1, n2#} + mset rest
             \<and> nb_dist n0 \<le> nb_dist n1 \<and> nb_dist n1 \<le> nb_dist n2
             \<and> list_all (\<lambda>r. nb_dist n2 \<le> nb_dist r) rest
             \<and> buildHub rs positions repl p =
                 (virtualHub rs p h @ xyz (nb_position n0)
                    @ virtualHub rs p h @ xyz (nb_position n1)
                    @ virtualHub rs p h @ xyz (nb_position n2),
                  hubColors h,
                  [initialOpacity repl, initialOpacity repl, initialOpacity repl]))"
    unfolding cands_def hubIndex_def by (intro impI buildHub_three)
  moreover have "\<exists>k lp lc. k \<le> n \<and> length lp = 18 * k \<and> length lc = 18 * k
            \<and> hubLoop rs positions repl n q ([], [], [])
                = (lp, lc, replicate (3 * k) (initialOpacity repl))"
    using hubLoop_shape [where lp = "[]" and m = 0 and lc = "[]" and lo = "[]" and repl = repl
      and n = n and rs = rs and positions = positions and p = q]
    by auto
  ultimately show ?thesis by (intro conjI)
qed

text \<open>C6 on the example stream: fifty recorded neighbours, one hub with three spokes.\<close>

theorem hub_has_three_closest_spokes_witness:
  "3 \<le> length (probeLoop repeatDraws examplePositions (randomIndex (repeatDraws 0)) 50 (0 + 4) [])
   \<and> (\<exists>h n0 n1 n2 rest.
         mset (probeLoop repeatDraws examplePositions (randomIndex (repeatDraws 0)) 50 (0 + 4) [])
           = {#n0, n1, n2#} + mset rest
         \<and> nb_dist n0 \<le> nb_dist n1 \<and> nb_dist n1 \<le> nb_dist n2
         \<and> buildHub repeatDraws examplePositions (1 / 20) 0 =
             (virtualHub repeatDraws 0 h @ xyz (nb_position n0)
                @ virtualHub repeatDraws 0 h @ xyz (nb_position n1)
                @ virtualHub repeatDraws 0 h @ xyz (nb_position n2),
              hubColors h, [1 / 100, 1 / 100, 1 / 100]))"
proof -
  have idx: "randomIndex (repeatDraws 0) = 0"
    by (simp add: repeatDraws_def randomIndex_def)
  have len: "3 \<le> length (probeLoop repeatDraws examplePositions (randomIndex (repeatDraws 0)) 50 (0 + 4) [])"
    unfolding idx add_0 cands_repeat by simp
  from hub_has_three_closest_spokes [where rs = repeatDraws and positions = examplePositions
      and p = 0 and repl = "1 / 20"] len
  show ?thesis by (simp add: initialOpacity_def) blast
qed

subsection \<open>C9: probes are drawn with replacement, the anchor is skipped\<close>

text \<open>
  C9: the recorded neighbours are the fifty drawn indices in order, with repetitions,
  less those equal to the anchor and those failing the distance test, so each draw of the
  anchor's index costs one of the fifty checks. On the example stream every probe draws
  point 1 and the hub's three spokes all end at point 1; on the constant stream 0 every
  probe draws the anchor and nothing is recorded, although the point passes the distance
  test.
\<close>

theorem sampler_repeats_and_skips:
  "map nb_index (probeLoop rs positions hubIndex 50 p []) =
     filter (\<lambda>k. k \<noteq> hubIndex \<and> qualifies positions hubIndex k)
       (map (\<lambda>j. randomIndex (rs j)) [p..<p + 50])
   \<and> length (probeLoop rs positions hubIndex 50 p [])
       \<le> 50 - length (filter (\<lambda>j. randomIndex (rs j) = hubIndex) [p..<p + 50])
   \<and> map nb_index (take 3 (sort_key nb_dist (probeLoop repeatDraws examplePositions 0 50 4 [])))
       = [1, 1, 1]
   \<and> fst (buildHub repeatDraws examplePositions (1 / 20) 0) =
       [- (24999 / 500000), - (24999 / 500000), - (24999 / 500000), 1 / 50000, 0, 0,
        - (24999 / 500000), - (24999 / 500000), - (24999 / 500000), 1 / 50000, 0, 0,
        - (24999 / 500000), - (24999 / 500000), - (24999 / 500000), 1 / 50000, 0, 0]
   \<and> qualifies examplePositions 0 0
   \<and> probeLoop (\<lambda>_. 0) examplePositions 0 50 4 [] = []"
proof -
  have ix: "map nb_index (probeLoop rs positions hubIndex 50 p []) =
     filter (\<lambda>k. k \<noteq> hubIndex \<and> qualifies positions hubIndex k)
       (map (\<lambda>j. randomIndex (rs j)) [p..<p + 50])"
    using probeLoop_index [of rs positions hubIndex 50 p "[]"] by simp
  have "length (probeLoop rs positions hubIndex 50 p [])
        = length (map nb_index (probeLoop rs positions hubIndex 50 p []))" by simp
  also have "\<dots> \<le> length (map (\<lambda>j. randomIndex (rs j)) [p..<p + 50])
                 - length (filter (\<lambda>k. \<not> k \<noteq> hubIndex) (map (\<lambda>j. randomIndex (rs j)) [p..<p + 50]))"
    unfolding ix by (rule length_filter_conj_le)
  also have "\<dots> = 50 - length (filter (\<lambda>j. randomIndex (rs j) = hubIndex) [p..<p + 50])"
    by (simp add: filter_map comp_def)
  finally have skip: "length (probeLoop rs positions hubIndex 50 p [])
       \<le> 50 - length (filter (\<lambda>j. randomIndex (rs j) = hubIndex) [p..<p + 50])" .
  have n50: "(50::nat) = Suc (Suc (Suc 47))" by simp
  have rep: "map nb_index (take 3 (sort_key nb_dist (probeLoop repeatDraws examplePositions 0 50 4 [])))
       = [1, 1, 1]"
    unfolding cands_repeat sort_key_replicate unfolding n50 by (simp add: eval_nat_numeral)
  have q: "qualifies examplePositions 0 0"
    using examplePoint [of 0] by (simp add: qualifies_def distance_def CONNECTION_THRESHOLD_def)
  show ?thesis
    using ix skip rep q by (simp add: buildHub_repeat cands_anchor)
qed

text \<open>C9 used on both streams.\<close>

theorem sampler_repeats_and_skips_witness:
  "map nb_index (probeLoop repeatDraws examplePositions 0 50 4 []) = replicate 50 1
   \<and> length (probeLoop (\<lambda>_. 0) examplePositions 0 50 4 []) < 50"
proof -
  have "map nb_index (probeLoop repeatDraws examplePositions 0 50 4 []) = replicate 50 1"
    unfolding cands_repeat by simp
  moreover from sampler_repeats_and_skips [where rs = "\<lambda>_. 0" and positions = examplePositions
      and hubIndex = 0 and p = 4]
  have "length (probeLoop (\<lambda>_. 0) examplePositions 0 50 4 []) \<le> 50 - length (filter (\<lambda>j. randomIndex ((\<lambda>_. 0) j) = (0::int)) [4..<4 + 50])"
    by blast
  then have "length (probeLoop (\<lambda>_. 0) examplePositions 0 50 4 []) < 50"
    by (simp add: randomIndex_def)
  ultimately show ?thesis by simp
qed

subsection \<open>C10: an incremental build while \<open>connections\<close> is null\<close>

text \<open>
  C10: when an incremental build (replacement percentage below 1) makes at least one hub
  while \<open>connections\<close> is null, the new batch is appended to \<open>active\<close> and \<open>fadingIn\<close>
  is left as it was, although the batch's state is \<open>FadingIn\<close> and its opacities are all
  0.01; the following tick gives it the pulse of the active batches.
\<close>

theorem partial_build_without_connections_goes_active:
  assumes "connections s = None" and "replacementPercentage < 1"
    and "list_all (\<lambda>c. cid c < nextId s) (fadingIn s)"
    and "fst (hubLoop rs positions replacementPercentage
                (nat (numHubsToCreate replacementPercentage explicitConnectionCount))
                (randomPos s) ([], [], [])) \<noteq> []"
  shows "\<exists>new. active (createConnections rs positions tCreate replacementPercentage
                         explicitConnectionCount s) = active s @ [new]
           \<and> fadingIn (createConnections rs positions tCreate replacementPercentage
                         explicitConnectionCount s) = fadingIn s
           \<and> connections (createConnections rs positions tCreate replacementPercentage
                         explicitConnectionCount s) = Some (cid new)
           \<and> state new = FadingIn
           \<and> 1 \<le> hubsCount new
           \<and> opacities new = replicate (3 * hubsCount new) (1 / 100)
           \<and> cid new \<in> set (scene (createConnections rs positions tCreate replacementPercentage
                         explicitConnectionCount s))
           \<and> pulseColors tNow new
                \<in> set (active (updateConnections tNow
                       (createConnections rs positions tCreate replacementPercentage
                          explicitConnectionCount s)))
           \<and> cid new \<notin> cid ` set (fadingIn s)"
proof -
  let ?n = "nat (numHubsToCreate replacementPercentage explicitConnectionCount)"
  let ?s' = "createConnections rs positions tCreate replacementPercentage explicitConnectionCount s"
  obtain lp lc lo where H:
    "hubLoop rs positions replacementPercentage ?n (randomPos s) ([], [], []) = (lp, lc, lo)"
    by (cases "hubLoop rs positions replacementPercentage ?n (randomPos s) ([], [], [])") auto
  with assms(4) have ne: "lp \<noteq> []" by simp
  from createConnections_partial [OF assms(2), of rs positions tCreate explicitConnectionCount s]
  show ?thesis
  proof
    assume "?s' = s\<lparr> randomPos := randomPos s + 54 * ?n \<rparr>"
    moreover from ne H assms(2) have "nextId ?s' = Suc (nextId s)"
      by (simp add: createConnections_def Let_def split: option.splits)
    ultimately show ?thesis by simp
  next
    assume "\<exists>new. freshBatch s tCreate ?n new \<and>
               ?s' =
                 (case connections s of
                    None \<Rightarrow>
                      s\<lparr> randomPos := randomPos s + 54 * ?n,
                         nextId := Suc (nextId s), connections := Some (nextId s),
                         active := active s @ [new], scene := scene s @ [nextId s] \<rparr>
                  | Some l \<Rightarrow>
                      s\<lparr> randomPos := randomPos s + 54 * ?n,
                         nextId := Suc (nextId s),
                         fadingIn := fadingIn s @ [new], scene := scene s @ [nextId s] \<rparr>)"
    then obtain new where new: "freshBatch s tCreate ?n new"
      "?s' = s\<lparr> randomPos := randomPos s + 54 * ?n,
                         nextId := Suc (nextId s), connections := Some (nextId s),
                         active := active s @ [new], scene := scene s @ [nextId s] \<rparr>"
      using assms(1) by auto
    moreover have "pulseColors tNow new \<in> set (active (updateConnections tNow ?s'))"
      unfolding updateConnections_active new(2) by simp
    ultimately show ?thesis
      using assms(3) by (intro exI [of _ new]) (auto simp: freshBatch_def list_all_iff)
  qed
qed

text \<open>
  C10 after an initial build that made no hub: the first incremental build of 20 hubs
  makes one, and its batch lands in \<open>active\<close>.
\<close>

theorem partial_build_without_connections_goes_active_witness:
  "connections emptyStart = None \<and> CONNECTION_REFRESH_RATE < 1
   \<and> fst (hubLoop lateDraws examplePositions CONNECTION_REFRESH_RATE
            (nat (numHubsToCreate CONNECTION_REFRESH_RATE (Some 20)))
            (randomPos emptyStart) ([], [], [])) \<noteq> []
   \<and> (\<exists>new. active (createConnections lateDraws examplePositions 7 CONNECTION_REFRESH_RATE
                       (Some 20) emptyStart) = [new]
          \<and> fadingIn (createConnections lateDraws examplePositions 7 CONNECTION_REFRESH_RATE
                       (Some 20) emptyStart) = []
          \<and> state new = FadingIn \<and> opacities new = replicate (3 * hubsCount new) (1 / 100))"
proof -
  have a: "connections emptyStart = None" by (simp add: emptyStart_eq initialState_def)
  have b: "CONNECTION_REFRESH_RATE < 1" by (simp add: CONNECTION_REFRESH_RATE_def)
  have l: "list_all (\<lambda>c. cid c < nextId emptyStart) (fadingIn emptyStart)"
    by (simp add: emptyStart_eq initialState_def)
  have r: "CONNECTION_REFRESH_RATE = 1 / 20" by (simp add: CONNECTION_REFRESH_RATE_def)
  have n: "nat (numHubsToCreate (1 / 20) (Some 20)) = 20" "randomPos emptyStart = 16200"
    by (simp_all add: numHubsToCreate_def emptyStart_eq)
  have c: "fst (hubLoop lateDraws examplePositions CONNECTION_REFRESH_RATE
            (nat (numHubsToCreate CONNECTION_REFRESH_RATE (Some 20)))
            (randomPos emptyStart) ([], [], [])) \<noteq> []"
    unfolding r n hubLoop_late buildHub_late by simp
  from partial_build_without_connections_goes_active [OF a b l c, of 7 7]
  have "\<exists>new. active (createConnections lateDraws examplePositions 7 CONNECTION_REFRESH_RATE
                       (Some 20) emptyStart) = [new]
          \<and> fadingIn (createConnections lateDraws examplePositions 7 CONNECTION_REFRESH_RATE
                       (Some 20) emptyStart) = []
          \<and> state new = FadingIn \<and> opacities new = replicate (3 * hubsCount new) (1 / 100)"
    by (auto simp: emptyStart_eq initialState_def)
  with a b c show ?thesis by (intro conjI)
qed

subsection \<open>C1: a tick before the fade duration has elapsed\<close>

text \<open>
  C1 says that a tick at \<open>elapsed = 0\<close> changes no opacity or colour value and that no
  transition fires before the fade duration has elapsed. The second half holds; the first
  fails for the colours, which the fades scale at every tick by design.

  C1 as the code has it: for a batch in \<open>fadingIn\<close> or \<open>fadingOut\<close>, a tick while
  \<open>elapsed\<close> is at most the fade duration leaves the batch in its bucket and leaves its
  \<open>opacities\<close> array as it is; at \<open>elapsed = 0\<close> it multiplies each colour component by
  0.9 (fading in) or by 0.95 (fading out), and changes nothing else of the batch.
\<close>

theorem tick_before_duration_keeps_bucket:
  "(c \<in> set (fadingIn s) \<and> tNow - startTime c \<le> FADE_IN_DURATION \<longrightarrow>
      fadeInColors tNow c \<in> set (fadingIn (updateConnections tNow s))
      \<and> opacities (fadeInColors tNow c) = opacities c
      \<and> bucketRank (updateConnections tNow s) (cid c) = bucketRank s (cid c)
      \<and> (tNow = startTime c \<longrightarrow>
           fadeInColors tNow c =
             c\<lparr> colors := mapFirst (6 * length (opacities c)) (\<lambda>v. v * (9 / 10)) (colors c) \<rparr>))
   \<and> (c \<in> set (fadingOut s) \<and> tNow - startTime c \<le> FADE_OUT_DURATION \<longrightarrow>
      fadeOutColors tNow c \<in> set (fadingOut (updateConnections tNow s))
      \<and> opacities (fadeOutColors tNow c) = opacities c
      \<and> (oneBucket s \<longrightarrow> bucketRank (updateConnections tNow s) (cid c) = bucketRank s (cid c))
      \<and> (tNow = startTime c \<longrightarrow>
           fadeOutColors tNow c =
             c\<lparr> colors := mapFirst (6 * length (opacities c)) (\<lambda>v. v * (95 / 100)) (colors c) \<rparr>))"
proof (intro conjI impI)
  assume "c \<in> set (fadingIn s) \<and> tNow - startTime c \<le> FADE_IN_DURATION"
  then have c: "c \<in> set (fadingIn s)" "\<not> tNow - startTime c > FADE_IN_DURATION" by auto
  then show in': "fadeInColors tNow c \<in> set (fadingIn (updateConnections tNow s))"
    unfolding updateConnections_buckets by simp
  show "opacities (fadeInColors tNow c) = opacities c"
    by (simp add: fadeInColors_def Let_def)
  from in' have "bucketRank (updateConnections tNow s) (cid (fadeInColors tNow c)) = 0"
    by (rule oneBucket_fadingIn_rank)
  with oneBucket_fadingIn_rank [OF c(1)]
  show "bucketRank (updateConnections tNow s) (cid c) = bucketRank s (cid c)" by simp
next
  assume "tNow = startTime c"
  then show "fadeInColors tNow c =
     c\<lparr> colors := mapFirst (6 * length (opacities c)) (\<lambda>v. v * (9 / 10)) (colors c) \<rparr>"
    by (simp add: fadeInColors_at_start)
next
  assume "c \<in> set (fadingOut s) \<and> tNow - startTime c \<le> FADE_OUT_DURATION"
  then have c: "c \<in> set (fadingOut s)" "\<not> tNow - startTime c > FADE_OUT_DURATION" by auto
  then show out': "fadeOutColors tNow c \<in> set (fadingOut (updateConnections tNow s))"
    unfolding updateConnections_buckets by simp
  show "opacities (fadeOutColors tNow c) = opacities c"
    by (simp add: fadeOutColors_def Let_def)
  assume one: "oneBucket s"
  note r = oneBucket_fadingOut_rank [OF one c(1)]
  from r(1) updateConnections_step [of s "cid c" tNow]
  have "2 \<le> bucketRank (updateConnections tNow s) (cid c)" by simp
  moreover from out' have "bucketRank (updateConnections tNow s) (cid c) \<le> 2"
    by (intro bucketRank_le2) (metis cid_fadeOutColors imageI)
  ultimately show "bucketRank (updateConnections tNow s) (cid c) = bucketRank s (cid c)"
    using r(1) by simp
next
  assume "tNow = startTime c"
  then show "fadeOutColors tNow c =
     c\<lparr> colors := mapFirst (6 * length (opacities c)) (\<lambda>v. v * (95 / 100)) (colors c) \<rparr>"
    by (simp add: fadeOutColors_at_start)
qed

text \<open>The amended C1 for the batch that entered \<open>fadingOut\<close> at time 10, ticked at time 10.\<close>

theorem tick_before_duration_keeps_bucket_witness:
  "oneBucket lifecycleState
   \<and> (exampleBatch 1 1)\<lparr> state := FadingOut, startTime := 10 \<rparr> \<in> set (fadingOut lifecycleState)
   \<and> (10::real) - 10 \<le> FADE_OUT_DURATION
   \<and> bucketRank (updateConnections 10 lifecycleState) 1 = 2
   \<and> (exampleBatch 1 1)\<lparr> state := FadingOut, startTime := 10,
         colors := mapFirst (6 * length (opacities (exampleBatch 1 1))) (\<lambda>v. v * (95 / 100))
                     (colors (exampleBatch 1 1)) \<rparr>
       \<in> set (fadingOut (updateConnections 10 lifecycleState))"
proof -
  let ?c = "(exampleBatch 1 1)\<lparr> state := FadingOut, startTime := 10 \<rparr>"
  have a: "?c \<in> set (fadingOut lifecycleState)" by (simp add: lifecycleState_def)
  have b: "10 - startTime ?c \<le> FADE_OUT_DURATION" "10 = startTime ?c"
    by (simp_all add: FADE_OUT_DURATION_def)
  have i: "cid ?c = 1" by (simp add: exampleBatch_def)
  from tick_before_duration_keeps_bucket [of ?c lifecycleState 10] a b oneBucket_lifecycleState
  have "fadeOutColors 10 ?c \<in> set (fadingOut (updateConnections 10 lifecycleState))"
    "bucketRank (updateConnections 10 lifecycleState) (cid ?c) = bucketRank lifecycleState (cid ?c)"
    "fadeOutColors 10 ?c =
       ?c\<lparr> colors := mapFirst (6 * length (opacities ?c)) (\<lambda>v. v * (95 / 100)) (colors ?c) \<rparr>"
    by blast+
  then have "?c\<lparr> colors := mapFirst (6 * length (opacities ?c)) (\<lambda>v. v * (95 / 100)) (colors ?c) \<rparr>
       \<in> set (fadingOut (updateConnections 10 lifecycleState))"
    "bucketRank (updateConnections 10 lifecycleState) 1 = 2"
    unfolding i using bucketRank_lifecycleState(3) by simp_all
  moreover have "(10::real) - 10 \<le> FADE_OUT_DURATION" by (simp add: FADE_OUT_DURATION_def)
  ultimately show ?thesis using oneBucket_lifecycleState a by simp
qed

text \<open>
  C1 as stated fails: the batch that entered \<open>fadingOut\<close> at time 10 has colour components
  0.5, and the tick at time 10 (\<open>elapsed = 0\<close>) makes them 0.475.
\<close>

theorem tick_at_elapsed_zero_changes_colors:
  "map startTime (fadingOut lifecycleState) = [10]
   \<and> map colors (fadingOut lifecycleState)
       = [[1 / 2, 1 / 2, 1 / 2, 1 / 2, 1 / 2, 1 / 2, 1 / 2, 1 / 2, 1 / 2,
           1 / 2, 1 / 2, 1 / 2, 1 / 2, 1 / 2, 1 / 2, 1 / 2, 1 / 2, 1 / 2]]
   \<and> map colors (fadingOut (updateConnections 10 lifecycleState))
       = [[19 / 40, 19 / 40, 19 / 40, 19 / 40, 19 / 40, 19 / 40, 19 / 40, 19 / 40, 19 / 40,
           19 / 40, 19 / 40, 19 / 40, 19 / 40, 19 / 40, 19 / 40, 19 / 40, 19 / 40, 19 / 40]]
   \<and> map colors (fadingOut (updateConnections 10 lifecycleState))
       \<noteq> map colors (fadingOut lifecycleState)"
  unfolding updateConnections_fadingOut
  by (simp add: lifecycleState_def exampleBatch_def FADE_OUT_DURATION_def fadeOutColors_def Let_def
      mapFirst_def eval_nat_numeral)

subsection \<open>C5: batches move forward, one bucket at a time\<close>

text \<open>
  C5: after the initial build, and after every tick and every frame from a state where no
  batch is held twice, no batch is held twice; a tick and a whole frame (demotion,
  spawning, tick) leave the stage of every allocated batch where it is or move it forward
  by one in the order \<open>fadingIn\<close>, \<open>active\<close>, \<open>fadingOut\<close>, \<open>pendingRemoval\<close>, deleted;
  over any number of frames no stage ever decreases, so a batch seen in \<open>fadingOut\<close> is
  never again in \<open>active\<close> or \<open>fadingIn\<close>. Every frame returns (the unguarded loop of the
  normal branch never runs past the end of \<open>active\<close>).
\<close>

theorem batches_move_forward_one_bucket_at_a_time:
  "oneBucket (createInitialConnections rs positions tCreate initialState)
   \<and> (\<forall>i. bucketRank s i \<le> bucketRank (updateConnections tNow s) i
            \<and> bucketRank (updateConnections tNow s) i \<le> Suc (bucketRank s i))
   \<and> (oneBucket s \<longrightarrow> oneBucket (updateConnections tNow s))
   \<and> (oneBucket s \<longrightarrow>
        (\<exists>s1. render rs positions tNow tCreate s = Some s1 \<and> oneBucket s1
           \<and> (\<forall>i. i < nextId s \<longrightarrow>
                  bucketRank s i \<le> bucketRank s1 i \<and> bucketRank s1 i \<le> Suc (bucketRank s i)))
        \<and> (\<exists>s'. frames rs fs s = Some s' \<and> oneBucket s'
              \<and> (\<forall>i. i < nextId s \<longrightarrow> bucketRank s i \<le> bucketRank s' i)
              \<and> (\<forall>c. c \<in> set (fadingOut s) \<longrightarrow>
                     cid c \<notin> cid ` set (active s') \<union> cid ` set (fadingIn s'))))"
proof (intro conjI impI allI)
  show "oneBucket (createInitialConnections rs positions tCreate initialState)"
    by (rule oneBucket_initial)
next
  fix i
  show "bucketRank s i \<le> bucketRank (updateConnections tNow s) i"
    "bucketRank (updateConnections tNow s) i \<le> Suc (bucketRank s i)"
    using updateConnections_step [of s i tNow] by simp_all
next
  assume "oneBucket s"
  then show "oneBucket (updateConnections tNow s)" by (rule oneBucket_updateConnections)
next
  assume one: "oneBucket s"
  from render_step [of rs positions tNow tCreate s] one
  show "\<exists>s1. render rs positions tNow tCreate s = Some s1 \<and> oneBucket s1
           \<and> (\<forall>i. i < nextId s \<longrightarrow>
                  bucketRank s i \<le> bucketRank s1 i \<and> bucketRank s1 i \<le> Suc (bucketRank s i))"
    by blast
next
  assume one: "oneBucket s"
  from frames_forward [of rs fs s] one obtain s' where s': "frames rs fs s = Some s'"
    "oneBucket s'" "\<forall>i. i < nextId s \<longrightarrow> bucketRank s i \<le> bucketRank s' i"
    by blast
  have "\<forall>c. c \<in> set (fadingOut s) \<longrightarrow>
          cid c \<notin> cid ` set (active s') \<union> cid ` set (fadingIn s')"
  proof (intro allI impI)
    fix c assume c: "c \<in> set (fadingOut s)"
    from oneBucket_fadingOut_rank [OF one c] s'(3)
    have "2 \<le> bucketRank s' (cid c)" by auto
    then show "cid c \<notin> cid ` set (active s') \<union> cid ` set (fadingIn s')"
      by (rule bucketRank_ge2)
  qed
  with s' show "\<exists>s'. frames rs fs s = Some s' \<and> oneBucket s'
              \<and> (\<forall>i. i < nextId s \<longrightarrow> bucketRank s i \<le> bucketRank s' i)
              \<and> (\<forall>c. c \<in> set (fadingOut s) \<longrightarrow>
                     cid c \<notin> cid ` set (active s') \<union> cid ` set (fadingIn s'))"
    by blast
qed

text \<open>C5 on the state with one batch per bucket, for the batch held in \<open>fadingOut\<close>.\<close>

theorem batches_move_forward_one_bucket_at_a_time_witness:
  "oneBucket lifecycleState
   \<and> bucketRank lifecycleState 1 = 2
   \<and> (\<exists>s1. render lateDraws examplePositions 12 12 lifecycleState = Some s1 \<and> oneBucket s1
          \<and> 2 \<le> bucketRank s1 1 \<and> bucketRank s1 1 \<le> 3)
   \<and> (\<exists>s'. frames lateDraws
               [\<lparr> f_positions = examplePositions, f_tNow = 12, f_tCreate = 12 \<rparr>,
                \<lparr> f_positions = examplePositions, f_tNow = 13, f_tCreate = 13 \<rparr>] lifecycleState
             = Some s'
           \<and> oneBucket s' \<and> 2 \<le> bucketRank s' 1)"
proof -
  let ?fs = "[\<lparr> f_positions = examplePositions, f_tNow = 12, f_tCreate = 12 \<rparr>,
              \<lparr> f_positions = examplePositions, f_tNow = 13, f_tCreate = 13 \<rparr>]"
  note one = oneBucket_lifecycleState
  have n: "(1::nat) < nextId lifecycleState" by (simp add: lifecycleState_def)
  note r = bucketRank_lifecycleState(3)
  from batches_move_forward_one_bucket_at_a_time
    [of lateDraws examplePositions 12 lifecycleState 12 ?fs] one
  have step: "\<exists>s1. render lateDraws examplePositions 12 12 lifecycleState = Some s1 \<and> oneBucket s1
           \<and> (\<forall>i. i < nextId lifecycleState \<longrightarrow>
                  bucketRank lifecycleState i \<le> bucketRank s1 i
                  \<and> bucketRank s1 i \<le> Suc (bucketRank lifecycleState i))"
    and run: "\<exists>s'. frames lateDraws ?fs lifecycleState = Some s' \<and> oneBucket s'
              \<and> (\<forall>i. i < nextId lifecycleState \<longrightarrow>
                     bucketRank lifecycleState i \<le> bucketRank s' i)
              \<and> (\<forall>c. c \<in> set (fadingOut lifecycleState) \<longrightarrow>
                     cid c \<notin> cid ` set (active s') \<union> cid ` set (fadingIn s'))"
    by blast+
  from step n r have "\<exists>s1. render lateDraws examplePositions 12 12 lifecycleState = Some s1
          \<and> oneBucket s1 \<and> 2 \<le> bucketRank s1 1 \<and> bucketRank s1 1 \<le> 3"
    by (metis numeral_2_eq_2 numeral_3_eq_3)
  moreover from run n r have "\<exists>s'. frames lateDraws ?fs lifecycleState = Some s'
           \<and> oneBucket s' \<and> 2 \<le> bucketRank s' 1"
    by metis
  ultimately show ?thesis using one r by (intro conjI)
qed

subsection \<open>C8: a faded-out batch is removed\<close>

text \<open>
  C8: a batch in \<open>fadingOut\<close> whose \<open>startTime\<close> is \<open>t0\<close> (the time it entered the bucket:
  demotion sets it) is moved to \<open>pendingRemoval\<close> by the frame at any time later than
  \<open>t0 + FADE_OUT_DURATION\<close>, and after the following frame, whatever its inputs, its line
  object is no longer in the scene and no bucket holds it.
\<close>

theorem faded_out_batch_is_removed:
  assumes "oneBucket s" and "c \<in> set (fadingOut s)"
    and "startTime c + FADE_OUT_DURATION < tNow"
  shows "\<exists>s1. render rs positions tNow tCreate s = Some s1
           \<and> c \<in> set (pendingRemoval s1) \<and> bucketRank s1 (cid c) = 3
           \<and> (\<exists>s2. render rs positions' tNow' tCreate' s1 = Some s2
                  \<and> cid c \<notin> set (scene s2) \<and> bucketRank s2 (cid c) = 4)"
proof -
  from render_expired [OF assms, of rs positions tCreate]
  obtain s1 where s1: "render rs positions tNow tCreate s = Some s1"
    "c \<in> set (pendingRemoval s1)" "bucketRank s1 (cid c) = 3" "cid c < nextId s1"
    by blast
  from render_deletes_pending [OF s1(2,3,4), of rs positions' tNow' tCreate']
  obtain s2 where "render rs positions' tNow' tCreate' s1 = Some s2"
    "cid c \<notin> set (scene s2)" "bucketRank s2 (cid c) = 4"
    by blast
  with s1 show ?thesis by blast
qed

text \<open>C8 for the batch that entered \<open>fadingOut\<close> at time 10, with frames at 12 and 12 + 1/60.\<close>

theorem faded_out_batch_is_removed_witness:
  "oneBucket lifecycleState
   \<and> (exampleBatch 1 1)\<lparr> state := FadingOut, startTime := 10 \<rparr> \<in> set (fadingOut lifecycleState)
   \<and> (10::real) + FADE_OUT_DURATION < 12
   \<and> 1 \<in> set (scene lifecycleState)
   \<and> (\<exists>s1. render lateDraws examplePositions 12 12 lifecycleState = Some s1
          \<and> bucketRank s1 1 = 3
          \<and> (\<exists>s2. render lateDraws examplePositions (12 + 1 / 60) (12 + 1 / 60) s1 = Some s2
                 \<and> 1 \<notin> set (scene s2) \<and> bucketRank s2 1 = 4))"
proof -
  let ?c = "(exampleBatch 1 1)\<lparr> state := FadingOut, startTime := 10 \<rparr>"
  have a: "?c \<in> set (fadingOut lifecycleState)" by (simp add: lifecycleState_def)
  have b: "startTime ?c + FADE_OUT_DURATION < 12" by (simp add: FADE_OUT_DURATION_def)
  have i: "cid ?c = 1" by (simp add: exampleBatch_def)
  from faded_out_batch_is_removed [OF oneBucket_lifecycleState a b,
      of lateDraws examplePositions 12 examplePositions "12 + 1 / 60" "12 + 1 / 60"]
  have "\<exists>s1. render lateDraws examplePositions 12 12 lifecycleState = Some s1
          \<and> bucketRank s1 1 = 3
          \<and> (\<exists>s2. render lateDraws examplePositions (12 + 1 / 60) (12 + 1 / 60) s1 = Some s2
                 \<and> 1 \<notin> set (scene s2) \<and> bucketRank s2 1 = 4)"
    unfolding i by blast
  moreover have "1 \<in> set (scene lifecycleState)" "(10::real) + FADE_OUT_DURATION < 12"
    by (simp_all add: lifecycleState_def FADE_OUT_DURATION_def)
  ultimately show ?thesis using oneBucket_lifecycleState a by (intro conjI)
qed

end
